theory Spec2Isabelle
  imports Complex_Main "HOL-Library.Multiset" "HOL-Library.Product_Lexorder"
begin

section \<open>Python exceptions\<close>

text \<open>
  Every exception that the modelled code (or a library function it calls) can raise is
  a value of this type; a fallible operation returns \<open>error + 'a\<close>, with
  \<open>Inl\<close> for the raised exception. \<open>XMLSyntaxError\<close> is the exception of lxml,
  raised by a validating parser on a document that does not follow its DTD.
\<close>

datatype error = IOError | ValueError | IndexError | KeyError | TypeError | XMLSyntaxError

text \<open>
  Statements in sequence: \<open>sum_bind r f\<close> is the exception of \<open>r\<close> when \<open>r\<close> raises,
  and otherwise \<open>f\<close> applied to the value of \<open>r\<close>.
\<close>

definition sum_bind :: "error + 'a \<Rightarrow> ('a \<Rightarrow> error + 'b) \<Rightarrow> error + 'b" where
  "sum_bind r f = (case r of Inl e \<Rightarrow> Inl e | Inr v \<Rightarrow> f v)"

section \<open>The lxml element tree\<close>

text \<open>
  An \<open>lxml.etree\<close> element: its tag, its attributes (a dictionary, read with
  \<open>get\<close> and written with \<open>set\<close>, kept here as an association list), its text
  (\<open>None\<close> when it has none) and its children in document order.
\<close>

datatype xml =
  Element (tag: string) (attrib: "(string \<times> string) list") (etext: "string option")
    (children: "xml list")

definition xml_get :: "xml \<Rightarrow> string \<Rightarrow> string option" where
  "xml_get e k = map_of (attrib e) k"

fun alist_set :: "string \<Rightarrow> string \<Rightarrow> (string \<times> string) list \<Rightarrow> (string \<times> string) list" where
  "alist_set k v [] = [(k, v)]"
| "alist_set k v ((k', v') # kvs) =
     (if k' = k then (k, v) # kvs else (k', v') # alist_set k v kvs)"

definition xml_set :: "xml \<Rightarrow> string \<Rightarrow> string \<Rightarrow> xml" where
  "xml_set e k v = Element (tag e) (alist_set k v (attrib e)) (etext e) (children e)"

definition xml_append :: "xml \<Rightarrow> xml \<Rightarrow> xml" where
  "xml_append e c = Element (tag e) (attrib e) (etext e) (children e @ [c])"

definition xml_len :: "xml \<Rightarrow> nat" where
  "xml_len e = length (children e)"

text \<open>
  \<open>element[index]\<close>: a negative index counts from the end, and an index out of range
  raises \<open>IndexError\<close>.
\<close>

definition xml_index :: "xml \<Rightarrow> int \<Rightarrow> error + xml" where
  "xml_index e i =
     (let n = int (length (children e)); j = (if i < 0 then n + i else i)
      in if 0 \<le> j \<and> j < n then Inr (children e ! nat j) else Inl IndexError)"

section \<open>Document Type Definitions and validation\<close>

text \<open>
  The two DTDs of \<open>xmlparse.py\<close> only declare elements whose content is \<open>EMPTY\<close>,
  \<open>(#PCDATA)\<close> or a sequence of element names, each name once, \<open>*\<close> or \<open>+\<close>; and
  attributes that are all \<open>CDATA #REQUIRED\<close>. A DTD is the name after \<open>DOCTYPE\<close>, the
  \<open>ELEMENT\<close> declarations and the \<open>ATTLIST\<close> declarations as (element, attribute)
  pairs.
\<close>

datatype occurrence = Once | ZeroOrMore | OneOrMore

datatype content_model = EMPTY | PCDATA | Children "(string \<times> occurrence) list"

record dtd =
  doctype :: string
  elements :: "(string \<times> content_model) list"
  attlists :: "(string \<times> string) list"

definition whitespace :: "char \<Rightarrow> bool" where
  "whitespace c = (c = CHR '' '' \<or> c = CHR 0x09 \<or> c = CHR 0x0A \<or> c = CHR 0x0D)"

text \<open>
  Matching the tags of an element's children against a sequence of particles. Content
  models of XML are deterministic, so the greedy reading of \<open>*\<close> and \<open>+\<close> is the only one.
\<close>

fun match_particles :: "(string \<times> occurrence) list \<Rightarrow> string list \<Rightarrow> bool" where
  "match_particles [] ts = (ts = [])"
| "match_particles ((n, Once) # ps) ts =
     (case ts of [] \<Rightarrow> False | t # ts' \<Rightarrow> t = n \<and> match_particles ps ts')"
| "match_particles ((n, ZeroOrMore) # ps) ts =
     match_particles ps (dropWhile (\<lambda>t. t = n) ts)"
| "match_particles ((n, OneOrMore) # ps) ts =
     (case ts of [] \<Rightarrow> False
      | t # ts' \<Rightarrow> t = n \<and> match_particles ps (dropWhile (\<lambda>t. t = n) ts'))"

fun blank_text :: "string option \<Rightarrow> bool" where
  "blank_text None = True"
| "blank_text (Some s) = list_all whitespace s"

fun valid_content :: "content_model \<Rightarrow> string option \<Rightarrow> string list \<Rightarrow> bool" where
  "valid_content EMPTY txt ts = ((txt = None \<or> txt = Some []) \<and> ts = [])"
| "valid_content PCDATA txt ts = (ts = [])"
| "valid_content (Children ps) txt ts = (blank_text txt \<and> match_particles ps ts)"

text \<open>
  An element is valid when it is declared, its content follows the declared content
  model, each of its attributes is declared for it, each attribute required of it is
  present, and its children are valid.
\<close>

fun valid_element :: "dtd \<Rightarrow> xml \<Rightarrow> bool" where
  "valid_element d (Element t atts txt cs) =
     (case map_of (elements d) t of
        None \<Rightarrow> False
      | Some cm \<Rightarrow>
          valid_content cm txt (map tag cs)
          \<and> list_all (\<lambda>a. (t, a) \<in> set (attlists d)) (map fst atts)
          \<and> list_all (\<lambda>a. a \<in> set (map fst atts))
               (map snd (filter (\<lambda>ea. fst ea = t) (attlists d)))
          \<and> list_all (valid_element d) cs)"

section \<open>Files\<close>

text \<open>
  A standalone XML file as a validating parser reads it: the DTD of its \<open>DOCTYPE\<close>
  declaration and the tree of its root element. The XML declaration and the comment
  with the time of creation, which \<open>_toxml\<close> and \<open>xml_dump\<close> also write, are not part
  of either. The file system maps a path to the document stored there; a path that is
  not mapped cannot be opened for reading. Opening a path for writing creates or
  overwrites the file.
\<close>

record document =
  doc_dtd :: dtd
  doc_root :: xml

type_synonym path = string

type_synonym filesystem = "path \<Rightarrow> document option"

definition valid_document :: "document \<Rightarrow> bool" where
  "valid_document doc =
     (doctype (doc_dtd doc) = tag (doc_root doc) \<and> valid_element (doc_dtd doc) (doc_root doc))"

text \<open>
  \<open>validate_dtd(path)\<close>: parse the file with \<open>XMLParser(dtd_validation = True)\<close>; it
  raises when the file is missing or the document does not follow its DTD, and does
  nothing otherwise.
\<close>

definition validate_dtd :: "filesystem \<Rightarrow> path \<Rightarrow> error + unit" where
  "validate_dtd fs p =
     (case fs p of
        None \<Rightarrow> Inl IOError
      | Some doc \<Rightarrow> if valid_document doc then Inr () else Inl XMLSyntaxError)"

section \<open>Decimal numerals\<close>

text \<open>
  Python's \<open>str\<close> of a non-negative integer is its decimal digits, most significant
  first and without leading zeros; \<open>fixed_digits k n\<close> is the last \<open>k\<close> digits of
  \<open>n\<close>, with leading zeros kept.
\<close>

definition digit_char :: "nat \<Rightarrow> char" where
  "digit_char n = ''0123456789'' ! n"

definition digit_val :: "char \<Rightarrow> nat option" where
  "digit_val c =
     map_of [(CHR ''0'', 0), (CHR ''1'', 1), (CHR ''2'', 2), (CHR ''3'', 3), (CHR ''4'', 4),
             (CHR ''5'', 5), (CHR ''6'', 6), (CHR ''7'', 7), (CHR ''8'', 8), (CHR ''9'', 9)] c"

fun str_nat :: "nat \<Rightarrow> string" where
  "str_nat n = (if n < 10 then [digit_char n] else str_nat (n div 10) @ [digit_char (n mod 10)])"

declare str_nat.simps [simp del]

fun fixed_digits :: "nat \<Rightarrow> nat \<Rightarrow> string" where
  "fixed_digits 0 n = []"
| "fixed_digits (Suc k) n = fixed_digits k (n div 10) @ [digit_char (n mod 10)]"

fun parse_digits :: "nat \<Rightarrow> string \<Rightarrow> nat option" where
  "parse_digits acc [] = Some acc"
| "parse_digits acc (c # cs) =
     (case digit_val c of None \<Rightarrow> None | Some d \<Rightarrow> parse_digits (10 * acc + d) cs)"

section \<open>Floating-point numbers as text\<close>

text \<open>
  A finite Python float is a rational number, and is modelled by its value. The
  conversion \<open>'%.5f' % x\<close> writes the exact value of \<open>x\<close> rounded to five decimals,
  ties to the even digit: a sign when \<open>x\<close> is negative, the integer part, a point and
  the decimals. \<open>format_f d x\<close> is \<open>'%.df' % x\<close> for \<open>d > 0\<close>.

  \<open>float(s)\<close> returns the double nearest to the number that the literal \<open>s\<close>
  denotes, a tie going to the double whose last bit is zero. A double is a multiple
  \<open>m * 2 ^ e\<close> with \<open>m < 2 ^ 53\<close> and \<open>e \<ge> - 1074\<close>: \<open>nearest_double q\<close> rounds
  \<open>q\<close> to a multiple of \<open>2 ^ e\<close>, where \<open>e\<close> is 52 below the binary logarithm of
  \<open>\<bar>q\<bar>\<close> (\<open>ilog2\<close>, computed from the number of bits of an integer as
  \<open>int.bit_length\<close> counts them), and \<open>- 1074\<close> for the numbers too small for that.
  Numbers beyond the largest double, which \<open>float\<close> reads as an infinity, are not
  singled out: no text written from a finite float denotes one.

  \<open>py_float\<close> is \<open>float(s)\<close> on the decimal literals that \<open>format_f\<close> writes (an
  optional sign, digits, a point, digits). Any other string is refused here.
\<close>

definition round_half_even :: "rat \<Rightarrow> int" where
  "round_half_even q =
     (let f = \<lfloor>q\<rfloor>; r = q - of_int f
      in if r < 1 / 2 then f else if 1 / 2 < r then f + 1 else if even f then f else f + 1)"

definition format_f :: "nat \<Rightarrow> rat \<Rightarrow> string" where
  "format_f d x =
     (let n = nat (round_half_even (\<bar>x\<bar> * 10 ^ d))
      in (if x < 0 then ''-'' else []) @ str_nat (n div 10 ^ d) @ ''.''
           @ fixed_digits d (n mod 10 ^ d))"

fun bit_length :: "nat \<Rightarrow> nat" where
  "bit_length n = (if n = 0 then 0 else Suc (bit_length (n div 2)))"

declare bit_length.simps [simp del]

definition ilog2 :: "rat \<Rightarrow> int" where
  "ilog2 a =
     (if 1 \<le> a then int (bit_length (nat \<lfloor>a\<rfloor>)) - 1
      else - int (bit_length (nat (\<lceil>1 / a\<rceil> - 1))))"

definition ulp_exponent :: "rat \<Rightarrow> int" where
  "ulp_exponent a = max (ilog2 a - 52) (- 1074)"

definition nearest_double :: "rat \<Rightarrow> rat" where
  "nearest_double q =
     (if q = 0 then 0
      else let e = ulp_exponent \<bar>q\<bar>
           in sgn q * of_int (round_half_even (\<bar>q\<bar> / 2 powi e)) * 2 powi e)"

definition py_float :: "string \<Rightarrow> error + rat" where
  "py_float s =
     (let neg = (take 1 s = ''-'');
          body = (if take 1 s = ''-'' \<or> take 1 s = ''+'' then drop 1 s else s);
          ip = takeWhile (\<lambda>c. c \<noteq> CHR ''.'') body;
          fp = drop 1 (dropWhile (\<lambda>c. c \<noteq> CHR ''.'') body)
      in if ip = [] \<and> fp = [] then Inl ValueError
         else (case (parse_digits 0 ip, parse_digits 0 fp) of
                 (Some i, Some f) \<Rightarrow>
                   Inr (nearest_double
                          ((if neg then - 1 else 1) * (of_nat i + of_nat f / 10 ^ length fp)))
               | _ \<Rightarrow> Inl ValueError))"

text \<open>The number that \<open>'%.df' % x\<close> denotes: \<open>x\<close> rounded to \<open>d\<close> decimals.\<close>

definition round_decimal :: "nat \<Rightarrow> rat \<Rightarrow> rat" where
  "round_decimal d x =
     (if x < 0 then - 1 else 1) * of_int (round_half_even (\<bar>x\<bar> * 10 ^ d)) / 10 ^ d"

section \<open>Integers as text\<close>

text \<open>
  \<open>str(i)\<close> for an integer, and \<open>int(s)\<close> for what \<open>element.get\<close> returns:
  \<open>TypeError\<close> on \<open>None\<close>; otherwise the string is stripped of surrounding
  whitespace and must be an optional sign followed by decimal digits.
\<close>

definition str_int :: "int \<Rightarrow> string" where
  "str_int i = (if i < 0 then ''-'' @ str_nat (nat (- i)) else str_nat (nat i))"

definition py_space :: "char \<Rightarrow> bool" where
  "py_space c =
     (c = CHR '' '' \<or> c = CHR 0x09 \<or> c = CHR 0x0A \<or> c = CHR 0x0B \<or> c = CHR 0x0C
      \<or> c = CHR 0x0D)"

definition strip :: "string \<Rightarrow> string" where
  "strip s = rev (dropWhile py_space (rev (dropWhile py_space s)))"

definition py_int :: "string option \<Rightarrow> error + int" where
  "py_int a =
     (case a of
        None \<Rightarrow> Inl TypeError
      | Some s \<Rightarrow>
          (let t = strip s;
               neg = (take 1 t = ''-'');
               body = (if take 1 t = ''-'' \<or> take 1 t = ''+'' then drop 1 t else t)
           in if body = [] then Inl ValueError
              else (case parse_digits 0 body of
                      None \<Rightarrow> Inl ValueError
                    | Some n \<Rightarrow> Inr (if neg then - int n else int n))))"

section \<open>Calendar time: the modules time and calendar\<close>

text \<open>
  A \<open>time.struct_time\<close>, with the fields that \<open>asctime\<close> and \<open>calendar.timegm\<close>
  read; \<open>tm_wday\<close> counts from Monday as 0.
\<close>

record struct_time =
  tm_year :: int
  tm_mon :: int
  tm_mday :: int
  tm_hour :: int
  tm_min :: int
  tm_sec :: int
  tm_wday :: int

definition isleap :: "int \<Rightarrow> bool" where
  "isleap year = (year mod 4 = 0 \<and> (year mod 100 \<noteq> 0 \<or> year mod 400 = 0))"

definition days_in_month :: "int \<Rightarrow> int \<Rightarrow> int" where
  "days_in_month year month =
     (if month = 2 then (if isleap year then 29 else 28)
      else if month = 4 \<or> month = 6 \<or> month = 9 \<or> month = 11 then 30 else 31)"

text \<open>
  The functions of \<open>datetime\<close> behind \<open>date(year, month, 1).toordinal()\<close>: the
  number of days before 1 January of a year, counting from 1 January of year 1, and
  the number of days of a year before the first of a month.
\<close>

definition days_before_year :: "int \<Rightarrow> int" where
  "days_before_year year =
     (let y = year - 1 in y * 365 + y div 4 - y div 100 + y div 400)"

definition days_before_month :: "int \<Rightarrow> int \<Rightarrow> int" where
  "days_before_month year month =
     [0, 31, 59, 90, 120, 151, 181, 212, 243, 273, 304, 334] ! nat (month - 1)
       + (if month > 2 \<and> isleap year then 1 else 0)"

text \<open>
  \<open>calendar.timegm(tuple)\<close>:
  \<^verbatim>\<open>days = datetime.date(year, month, 1).toordinal() - _EPOCH_ORD + day - 1\<close>
  \<^verbatim>\<open>hours = days*24 + hour; minutes = hours*60 + minute; seconds = minutes*60 + second\<close>
  where \<open>_EPOCH_ORD\<close> is 719163 and \<open>datetime.date\<close> raises \<open>ValueError\<close> unless
  the year is in 1..9999 and the month in 1..12.
\<close>

definition timegm :: "struct_time \<Rightarrow> error + int" where
  "timegm t =
     (if tm_year t < 1 \<or> 9999 < tm_year t \<or> tm_mon t < 1 \<or> 12 < tm_mon t then Inl ValueError
      else
        (let days = days_before_year (tm_year t) + days_before_month (tm_year t) (tm_mon t) + 1
                      - 719163 + tm_mday t - 1;
             hours = days * 24 + tm_hour t;
             minutes = hours * 60 + tm_min t;
             seconds = minutes * 60 + tm_sec t
         in Inr seconds))"

text \<open>
  \<open>time.gmtime(secs)\<close> is the C library's \<open>gmtime\<close>: the date and time of day, in the
  proleptic Gregorian calendar, of the instant \<open>secs\<close> seconds after 1970-01-01
  00:00:00 (a Thursday). The day number is split into cycles of 400, 100, 4 and 1
  years counted from 1 January of year 1; the last day of a cycle of 4 or 400 years is
  31 December of its last, leap, year. The month is found by going through the months
  of the year. \<open>ValueError\<close> is raised when the argument does not fit the 64 bits of
  \<open>time_t\<close>, or the year the 32 bits of \<open>tm_year\<close> (which counts from 1900).
\<close>

fun month_of_yday :: "int \<Rightarrow> int list \<Rightarrow> int \<Rightarrow> int \<times> int" where
  "month_of_yday year [] yday = (12, yday + 1)"
| "month_of_yday year (m # ms) yday =
     (if yday < days_in_month year m \<or> ms = [] then (m, yday + 1)
      else month_of_yday year ms (yday - days_in_month year m))"

definition civil_of_days :: "int \<Rightarrow> int \<times> int \<times> int" where
  "civil_of_days days =
     (let n = days + 719162;
          n400 = n div 146097; r400 = n mod 146097;
          n100 = r400 div 36524; r100 = r400 mod 36524;
          n4 = r100 div 1461; r4 = r100 mod 1461;
          n1 = r4 div 365; yday = r4 mod 365;
          year = n400 * 400 + n100 * 100 + n4 * 4 + n1 + 1
      in if n1 = 4 \<or> n100 = 4 then (year - 1, 12, 31)
         else (case month_of_yday year [1, 2, 3, 4, 5, 6, 7, 8, 9, 10, 11, 12] yday of
                 (month, day) \<Rightarrow> (year, month, day)))"

definition gmtime :: "int \<Rightarrow> error + struct_time" where
  "gmtime secs =
     (let days = secs div 86400; rem = secs mod 86400 in
      case civil_of_days days of
        (year, month, day) \<Rightarrow>
          if secs < - (2 ^ 63) \<or> 2 ^ 63 \<le> secs
             \<or> year - 1900 < - (2 ^ 31) \<or> 2 ^ 31 \<le> year - 1900
          then Inl ValueError
          else Inr \<lparr>tm_year = year, tm_mon = month, tm_mday = day,
                    tm_hour = rem div 3600, tm_min = rem mod 3600 div 60, tm_sec = rem mod 60,
                    tm_wday = (days + 3) mod 7\<rparr>)"

text \<open>
  \<open>time.asctime(t)\<close> of Python 2. A year below 1900 is refused, unless it is one of
  0..99, which is read as a year of two digits (\<open>time.accept2dyear\<close>). The text is
  that of the C library's \<open>asctime\<close>,
  \<^verbatim>\<open>"%.3s %.3s%3d %.2d:%.2d:%.2d %d\n"\<close>
  from which Python removes the newline when it is the character at index 24, where it
  is for a year of four digits.
\<close>

definition day_abbr :: "string list" where
  "day_abbr = [''Mon'', ''Tue'', ''Wed'', ''Thu'', ''Fri'', ''Sat'', ''Sun'']"

definition month_abbr :: "string list" where
  "month_abbr = [''Jan'', ''Feb'', ''Mar'', ''Apr'', ''May'', ''Jun'',
                 ''Jul'', ''Aug'', ''Sep'', ''Oct'', ''Nov'', ''Dec'']"

definition pad3 :: "string \<Rightarrow> string" where
  "pad3 s = replicate (3 - length s) (CHR '' '') @ s"

definition c_asctime :: "struct_time \<Rightarrow> string" where
  "c_asctime t =
     day_abbr ! nat (tm_wday t) @ '' '' @ month_abbr ! nat (tm_mon t - 1)
       @ pad3 (str_int (tm_mday t)) @ '' ''
       @ fixed_digits 2 (nat (tm_hour t)) @ '':'' @ fixed_digits 2 (nat (tm_min t)) @ '':''
       @ fixed_digits 2 (nat (tm_sec t)) @ '' '' @ str_int (tm_year t) @ [CHR 0x0A]"

definition asctime :: "struct_time \<Rightarrow> error + string" where
  "asctime t =
     (let y = tm_year t in
      if y < 1900 \<and> \<not> (0 \<le> y \<and> y \<le> 99) then Inl ValueError
      else
        (let y' = (if 69 \<le> y \<and> y \<le> 99 then y + 1900
                   else if 0 \<le> y \<and> y \<le> 68 then y + 2000 else y);
             p = c_asctime (t\<lparr>tm_year := y'\<rparr>)
         in Inr (if 24 < length p \<and> p ! 24 = CHR 0x0A then take 24 p else p)))"

text \<open>
  \<open>time.strptime(string, "%a %b %d %H:%M:%S %Y UTC")\<close>, on a string of the shape that
  \<open>asctime\<close> followed by \<open>" UTC"\<close> has: the names of the day and the month, a day of
  one or two digits, hours, minutes and seconds of one or two digits, a year of exactly
  four digits and \<open>UTC\<close>, with whitespace wherever the format has a space and nothing
  after \<open>UTC\<close>. The numbers must be in the ranges that the directives accept and the
  date must exist (\<open>datetime.date(year, month, day)\<close> is built); \<open>ValueError\<close>
  otherwise, \<open>TypeError\<close> on \<open>None\<close>. Letter case, which \<open>strptime\<close> ignores, is
  not ignored here.
\<close>

definition STRPTIME_FORMAT :: string where
  "STRPTIME_FORMAT = ''%a %b %d %H:%M:%S %Y UTC''"

fun take_name :: "string list \<Rightarrow> nat \<Rightarrow> string \<Rightarrow> (nat \<times> string) option" where
  "take_name [] i s = None"
| "take_name (n # ns) i s =
     (if take (length n) s = n then Some (i, drop (length n) s) else take_name ns (Suc i) s)"

definition take_spaces :: "string \<Rightarrow> string option" where
  "take_spaces s = (if s \<noteq> [] \<and> py_space (hd s) then Some (dropWhile py_space s) else None)"

definition is_digit :: "char \<Rightarrow> bool" where
  "is_digit c = (digit_val c \<noteq> None)"

definition take_number :: "nat \<Rightarrow> string \<Rightarrow> (nat \<times> string) option" where
  "take_number width s =
     (let ds = takeWhile is_digit (take width s)
      in case parse_digits 0 ds of
           None \<Rightarrow> None
         | Some n \<Rightarrow> if ds = [] then None else Some (n, drop (length ds) s))"

definition take_literal :: "string \<Rightarrow> string \<Rightarrow> string option" where
  "take_literal lit s = (if take (length lit) s = lit then Some (drop (length lit) s) else None)"

definition parse_names :: "string \<Rightarrow> (nat \<times> nat \<times> string) option" where
  "parse_names s0 =
     Option.bind (take_name day_abbr 0 s0) (\<lambda>(wd, s1).
     Option.bind (take_spaces s1) (\<lambda>s2.
     Option.bind (take_name month_abbr 0 s2) (\<lambda>(mo, s3).
     Option.bind (take_spaces s3) (\<lambda>s4. Some (wd, mo, s4)))))"

definition parse_day :: "string \<Rightarrow> (nat \<times> string) option" where
  "parse_day s0 =
     Option.bind (take_number 2 s0) (\<lambda>(d, s1).
     Option.bind (take_spaces s1) (\<lambda>s2. Some (d, s2)))"

definition parse_clock :: "string \<Rightarrow> (nat \<times> nat \<times> nat \<times> string) option" where
  "parse_clock s0 =
     Option.bind (take_number 2 s0) (\<lambda>(hh, s1).
     Option.bind (take_literal '':'' s1) (\<lambda>s2.
     Option.bind (take_number 2 s2) (\<lambda>(mi, s3).
     Option.bind (take_literal '':'' s3) (\<lambda>s4.
     Option.bind (take_number 2 s4) (\<lambda>(ss, s5).
     Option.bind (take_spaces s5) (\<lambda>s6. Some (hh, mi, ss, s6)))))))"

definition parse_year_utc :: "string \<Rightarrow> nat option" where
  "parse_year_utc s0 =
     (if length (takeWhile is_digit (take 4 s0)) \<noteq> 4 then None
      else Option.bind (take_number 4 s0) (\<lambda>(yr, s1).
           Option.bind (take_spaces s1) (\<lambda>s2.
           if s2 = ''UTC'' then Some yr else None)))"

definition parse_asctime_utc ::
  "string \<Rightarrow> (nat \<times> nat \<times> nat \<times> nat \<times> nat \<times> nat \<times> nat) option" where
  "parse_asctime_utc s0 =
     Option.bind (parse_names s0) (\<lambda>(wd, mo, s1).
     Option.bind (parse_day s1) (\<lambda>(d, s2).
     Option.bind (parse_clock s2) (\<lambda>(hh, mi, ss, s3).
     Option.bind (parse_year_utc s3) (\<lambda>yr. Some (wd, mo, d, hh, mi, ss, yr)))))"

definition strptime :: "string option \<Rightarrow> error + struct_time" where
  "strptime a =
     (case a of
        None \<Rightarrow> Inl TypeError
      | Some s \<Rightarrow>
          (case parse_asctime_utc s of
             None \<Rightarrow> Inl ValueError
           | Some (wd, mo, d, hh, mi, ss, yr) \<Rightarrow>
               if 1 \<le> d \<and> hh \<le> 23 \<and> mi \<le> 59 \<and> ss \<le> 61 \<and> 1 \<le> yr
                  \<and> int d \<le> days_in_month (int yr) (int mo + 1)
               then Inr \<lparr>tm_year = int yr, tm_mon = int mo + 1, tm_mday = int d,
                         tm_hour = int hh, tm_min = int mi, tm_sec = int ss, tm_wday = int wd\<rparr>
               else Inl ValueError))"

section \<open>XMLOffsetFile\<close>

text \<open>
  \<open>XMLOffsetFile.XML_DTD\<close>:
  \<^verbatim>\<open><!DOCTYPE offsets [\<close>
  \<^verbatim>\<open><!ELEMENT offsets (offset+)>\<close>
  \<^verbatim>\<open><!ATTLIST offsets size CDATA  #REQUIRED>\<close>
  \<^verbatim>\<open><!ELEMENT offset (reference, shifted, x_offset, y_offset)>\<close>
  \<^verbatim>\<open><!ELEMENT reference (#PCDATA)>\<close>
  \<^verbatim>\<open><!ELEMENT shifted   (#PCDATA)>\<close>
  \<^verbatim>\<open><!ATTLIST shifted date   CDATA  #REQUIRED>\<close>
  \<^verbatim>\<open><!ATTLIST shifted filter CDATA  #REQUIRED>\<close>
  \<^verbatim>\<open><!ELEMENT x_offset  (#PCDATA)>\<close>
  \<^verbatim>\<open><!ATTLIST x_offset overlap CDATA #REQUIRED>\<close>
  \<^verbatim>\<open><!ELEMENT y_offset  (#PCDATA)>\<close>
  \<^verbatim>\<open><!ATTLIST y_offset overlap CDATA #REQUIRED>\<close>
\<close>

definition XMLOffsetFile_XML_DTD :: dtd where
  "XMLOffsetFile_XML_DTD =
     \<lparr>doctype = ''offsets'',
      elements =
        [(''offsets'', Children [(''offset'', OneOrMore)]),
         (''offset'', Children [(''reference'', Once), (''shifted'', Once),
                               (''x_offset'', Once), (''y_offset'', Once)]),
         (''reference'', PCDATA),
         (''shifted'', PCDATA),
         (''x_offset'', PCDATA),
         (''y_offset'', PCDATA)],
      attlists =
        [(''offsets'', ''size''),
         (''shifted'', ''date''),
         (''shifted'', ''filter''),
         (''x_offset'', ''overlap''),
         (''y_offset'', ''overlap'')]\<rparr>"

text \<open>An \<open>XMLOffsetFile\<close> instance holds one attribute, \<open>self.root\<close>.\<close>

record XMLOffsetFile =
  root :: xml

text \<open>
  \<open>XMLOffsetFile.__init__(path = None)\<close>: \<open>not path\<close> holds for \<open>None\<close> and for the
  empty string; otherwise the file is opened (raising \<open>IOError\<close> when it cannot be)
  and parsed.
\<close>

definition XMLOffsetFile_init :: "filesystem \<Rightarrow> path option \<Rightarrow> error + XMLOffsetFile" where
  "XMLOffsetFile_init fs p =
     (if p = None \<or> p = Some []
      then Inr \<lparr>root = Element ''offsets'' [(''size'', ''0'')] None []\<rparr>
      else (case fs (the p) of
              None \<Rightarrow> Inl IOError
            | Some doc \<Rightarrow> Inr \<lparr>root = doc_root doc\<rparr>))"

definition XMLOffsetFile_len :: "XMLOffsetFile \<Rightarrow> nat" where
  "XMLOffsetFile_len self = xml_len (root self)"

text \<open>
  \<open>_toxml\<close> is the document that the written text holds: the tree of \<open>self.root\<close>
  after the DTD of the class.
\<close>

definition toxml :: "XMLOffsetFile \<Rightarrow> document" where
  "toxml self = \<lparr>doc_dtd = XMLOffsetFile_XML_DTD, doc_root = root self\<rparr>"

text \<open>
  \<open>dump(path)\<close> writes the file, then validates it: the result is the file system
  after the call and what \<open>validate_dtd\<close> returned or raised.
\<close>

definition dump :: "XMLOffsetFile \<Rightarrow> path \<Rightarrow> filesystem \<Rightarrow> filesystem \<times> (error + unit)" where
  "dump self p fs =
     (let fs' = fs(p \<mapsto> toxml self) in (fs', validate_dtd fs' p))"

text \<open>
  An \<open>XMLOffset\<close>; the fields carry the names of the arguments of \<open>__init__\<close> (the
  attributes of the class are \<open>reference\<close>, \<open>shifted\<close>, \<open>filter\<close>, \<open>date\<close>, \<open>x\<close>,
  \<open>y\<close>, \<open>x_overlap\<close>, \<open>y_overlap\<close>). The two paths are strings or \<open>None\<close>, as
  the text of an element is. The photometric filter is a value of the module
  \<open>passband\<close> and the offsets are Python numbers: both are type parameters, and their
  conversions to and from text are parameters of \<open>add\<close> and \<open>__getitem__\<close>.
\<close>

record ('f, 'n) XMLOffset =
  reference :: "string option"
  shifted :: "string option"
  shifted_filter :: 'f
  shifted_date :: int
  x_offset :: 'n
  y_offset :: 'n
  x_overlap :: int
  y_overlap :: int

text \<open>
  \<open>XMLOffsetFile.add(offset)\<close>. \<open>str_filter\<close> is \<open>str\<close> on a filter and
  \<open>str_number\<close> is \<open>str\<close> on an offset. The element is appended to the root only
  once it is complete, so a call that raises leaves the instance as it was.
\<close>

definition add ::
  "('f \<Rightarrow> string) \<Rightarrow> ('n \<Rightarrow> string) \<Rightarrow> XMLOffsetFile \<Rightarrow> ('f, 'n) XMLOffset
     \<Rightarrow> error + XMLOffsetFile" where
  "add str_filter str_number self offset =
     (let element = Element ''offset'' [] None [];
          reference_elt = Element ''reference'' [] (reference offset) [];
          element = xml_append element reference_elt
      in sum_bind (gmtime (shifted_date offset)) (\<lambda>t.
         sum_bind (asctime t) (\<lambda>s.
           (let shifted_date_str = s @ '' UTC'';
                kwargs = [(''date'', shifted_date_str),
                          (''filter'', str_filter (shifted_filter offset))];
                shifted_elt = Element ''shifted'' kwargs (shifted offset) [];
                element = xml_append element shifted_elt;
                x = Element ''x_offset'' [(''overlap'', str_int (x_overlap offset))]
                      (Some (str_number (x_offset offset))) [];
                element = xml_append element x;
                y = Element ''y_offset'' [(''overlap'', str_int (y_overlap offset))]
                      (Some (str_number (y_offset offset))) [];
                element = xml_append element y;
                root' = xml_append (root self) element
            in Inr \<lparr>root = xml_set root' ''size'' (str_int (int (xml_len root')))\<rparr>))))"

text \<open>
  \<open>XMLOffsetFile.__getitem__(index)\<close>. \<open>Passband\<close> is the constructor
  \<open>passband.Passband\<close> and \<open>float_of\<close> is \<open>float\<close>, each given what \<open>element.get\<close> or
  \<open>element.text\<close> returns.
\<close>

definition getitem ::
  "(string option \<Rightarrow> error + 'f) \<Rightarrow> (string option \<Rightarrow> error + 'n) \<Rightarrow> XMLOffsetFile \<Rightarrow> int
     \<Rightarrow> error + ('f, 'n) XMLOffset" where
  "getitem Passband float_of self index =
     sum_bind (xml_index (root self) index) (\<lambda>offset.
     sum_bind (xml_index offset 0) (\<lambda>element0.
     sum_bind (xml_index offset 1) (\<lambda>element1.
     sum_bind (strptime (xml_get element1 ''date'')) (\<lambda>t.
     sum_bind (timegm t) (\<lambda>shifted_date'.
     sum_bind (Passband (xml_get element1 ''filter'')) (\<lambda>shifted_pfilter.
     sum_bind (xml_index offset 2) (\<lambda>element2.
     sum_bind (float_of (etext element2)) (\<lambda>x_offset'.
     sum_bind (py_int (xml_get element2 ''overlap'')) (\<lambda>x_overlap'.
     sum_bind (xml_index offset 3) (\<lambda>element3.
     sum_bind (float_of (etext element3)) (\<lambda>y_offset'.
     sum_bind (py_int (xml_get element3 ''overlap'')) (\<lambda>y_overlap'.
       Inr \<lparr>reference = etext element0, shifted = etext element1,
            shifted_filter = shifted_pfilter, shifted_date = shifted_date',
            x_offset = x_offset', y_offset = y_offset',
            x_overlap = x_overlap', y_overlap = y_overlap'\<rparr>))))))))))))"

section \<open>CandidateAnnuli\<close>

text \<open>
  \<open>CandidateAnnuli.XML_DTD\<close>:
  \<^verbatim>\<open><!DOCTYPE annuli [\<close>
  \<^verbatim>\<open><!ELEMENT annuli (band*)>\<close>
  \<^verbatim>\<open><!ELEMENT band (candidate*)>\<close>
  \<^verbatim>\<open><!ATTLIST band name     CDATA #REQUIRED>\<close>
  \<^verbatim>\<open><!ATTLIST band aperture CDATA #REQUIRED>\<close>
  \<^verbatim>\<open><!ATTLIST band annulus  CDATA #REQUIRED>\<close>
  \<^verbatim>\<open><!ATTLIST band dannulus CDATA #REQUIRED>\<close>
  \<^verbatim>\<open><!ATTLIST band stdev    CDATA #REQUIRED>\<close>
  \<^verbatim>\<open><!ELEMENT candidate EMPTY>\<close>
  \<^verbatim>\<open><!ATTLIST candidate aperture CDATA #REQUIRED>\<close>
  \<^verbatim>\<open><!ATTLIST candidate annulus  CDATA #REQUIRED>\<close>
  \<^verbatim>\<open><!ATTLIST candidate dannulus CDATA #REQUIRED>\<close>
  \<^verbatim>\<open><!ATTLIST candidate stdev    CDATA #REQUIRED>\<close>
\<close>

definition CandidateAnnuli_XML_DTD :: dtd where
  "CandidateAnnuli_XML_DTD =
     \<lparr>doctype = ''annuli'',
      elements =
        [(''annuli'', Children [(''band'', ZeroOrMore)]),
         (''band'', Children [(''candidate'', ZeroOrMore)]),
         (''candidate'', EMPTY)],
      attlists =
        [(''band'', ''name''),
         (''band'', ''aperture''),
         (''band'', ''annulus''),
         (''band'', ''dannulus''),
         (''band'', ''stdev''),
         (''candidate'', ''aperture''),
         (''candidate'', ''annulus''),
         (''candidate'', ''dannulus''),
         (''candidate'', ''stdev'')]\<rparr>"

record CandidateAnnuli =
  aperture :: rat
  annulus :: rat
  dannulus :: rat
  stdev :: rat

text \<open>
  \<open>min(xs, key = k)\<close>: the first element of \<open>xs\<close> whose key is least; \<open>ValueError\<close>
  on an empty list.
\<close>

fun py_min :: "('a \<Rightarrow> 'k::linorder) \<Rightarrow> 'a list \<Rightarrow> error + 'a" where
  "py_min k [] = Inl ValueError"
| "py_min k (x # xs) = Inr (foldl (\<lambda>best c. if k c < k best then c else best) x xs)"

text \<open>
  The dictionary \<open>annuli\<close> maps a photometric filter to a list of candidates. It is
  kept as the list of its items, one per key; \<open>annuli[pfilter]\<close> reads the item of the
  key, and sorting the list \<open>annuli[pfilter]\<close> in place replaces it.
\<close>

type_synonym 'f annuli_dict = "('f \<times> CandidateAnnuli list) list"

definition dict_get :: "'f annuli_dict \<Rightarrow> 'f \<Rightarrow> error + CandidateAnnuli list" where
  "dict_get annuli pfilter =
     (case map_of annuli pfilter of None \<Rightarrow> Inl KeyError | Some cands \<Rightarrow> Inr cands)"

definition dict_replace :: "'f annuli_dict \<Rightarrow> 'f \<Rightarrow> CandidateAnnuli list \<Rightarrow> 'f annuli_dict" where
  "dict_replace annuli pfilter cands =
     map (\<lambda>item. if fst item = pfilter then (pfilter, cands) else item) annuli"

text \<open>
  The four attributes that \<open>xml_dump\<close> gives both to a \<open>band\<close> (those of the best
  candidate) and to a \<open>candidate\<close> element.
\<close>

definition candidate_kwargs :: "CandidateAnnuli \<Rightarrow> (string \<times> string) list" where
  "candidate_kwargs c =
     [(''aperture'', format_f 5 (aperture c)),
      (''annulus'', format_f 5 (annulus c)),
      (''dannulus'', format_f 5 (dannulus c)),
      (''stdev'', format_f 8 (stdev c))]"

definition cand_element :: "CandidateAnnuli \<Rightarrow> xml" where
  "cand_element c = Element ''candidate'' (candidate_kwargs c) None []"

definition sort_annuli :: "CandidateAnnuli list \<Rightarrow> CandidateAnnuli list" where
  "sort_annuli cands = sort_key (\<lambda>c. (annulus c, aperture c)) cands"

text \<open>
  The loop \<open>for pfilter in sorted(annuli.iterkeys())\<close> of \<open>xml_dump\<close>, over the keys
  still to visit: the state is the root element built so far and the dictionary,
  whose lists the loop sorts in place (\<open>list.sort\<close> is stable). The name of a filter
  (\<open>pfilter.name\<close>, of the module \<open>passband\<close>) is the parameter \<open>name\<close>. The loop
  returns the dictionary as it leaves it, and the root or the exception raised.
\<close>

fun dump_bands ::
  "('f \<Rightarrow> string) \<Rightarrow> 'f list \<Rightarrow> xml \<Rightarrow> 'f annuli_dict \<Rightarrow> 'f annuli_dict \<times> (error + xml)" where
  "dump_bands name [] root_elt annuli = (annuli, Inr root_elt)"
| "dump_bands name (pfilter # rest) root_elt annuli =
     (case dict_get annuli pfilter of
        Inl e \<Rightarrow> (annuli, Inl e)
      | Inr cands \<Rightarrow>
          (case py_min stdev cands of
             Inl e \<Rightarrow> (annuli, Inl e)
           | Inr best \<Rightarrow>
               (let band_element =
                      Element ''band'' ((''name'', name pfilter) # candidate_kwargs best) None [];
                    annuli' = dict_replace annuli pfilter (sort_annuli cands);
                    band_element' =
                      foldl (\<lambda>b candidate. xml_append b (cand_element candidate))
                        band_element (sort_annuli cands)
                in dump_bands name rest (xml_append root_elt band_element') annuli')))"

text \<open>
  \<open>CandidateAnnuli.xml_dump(xml_path, annuli)\<close>: build the tree, write the file with
  the DTD of the class, validate it. The result is the file system and the dictionary
  after the call, and whether the call returned or raised.
\<close>

definition xml_dump ::
  "('f::linorder \<Rightarrow> string) \<Rightarrow> path \<Rightarrow> 'f annuli_dict \<Rightarrow> filesystem
     \<Rightarrow> filesystem \<times> 'f annuli_dict \<times> (error + unit)" where
  "xml_dump name xml_path annuli fs =
     (case dump_bands name (sort (map fst annuli)) (Element ''annuli'' [] None []) annuli of
        (annuli', Inl e) \<Rightarrow> (fs, annuli', Inl e)
      | (annuli', Inr root_elt) \<Rightarrow>
          (let fs' = fs(xml_path \<mapsto> \<lparr>doc_dtd = CandidateAnnuli_XML_DTD, doc_root = root_elt\<rparr>)
           in (fs', annuli', validate_dtd fs' xml_path)))"

text \<open>
  \<open>float(element.get(x))\<close>: \<open>get\<close> returns \<open>None\<close> for a missing attribute, on which
  \<open>float\<close> raises \<open>TypeError\<close>.
\<close>

definition float_attr :: "xml \<Rightarrow> string \<Rightarrow> error + rat" where
  "float_attr e x = (case xml_get e x of None \<Rightarrow> Inl TypeError | Some s \<Rightarrow> py_float s)"

text \<open>\<open>CandidateAnnuli(*[float(e.get(x)) for x in attrs])\<close>\<close>

definition candidate_of :: "xml \<Rightarrow> error + CandidateAnnuli" where
  "candidate_of e =
     sum_bind (float_attr e ''aperture'') (\<lambda>ap.
     sum_bind (float_attr e ''annulus'') (\<lambda>an.
     sum_bind (float_attr e ''dannulus'') (\<lambda>dan.
     sum_bind (float_attr e ''stdev'') (\<lambda>sd.
       Inr \<lparr>aperture = ap, annulus = an, dannulus = dan, stdev = sd\<rparr>))))"

text \<open>\<open>annuli[pfilter].append(c)\<close> on a \<open>defaultdict(list)\<close>.\<close>

definition dd_append ::
  "('f \<Rightarrow> CandidateAnnuli list option) \<Rightarrow> 'f \<Rightarrow> CandidateAnnuli
     \<Rightarrow> ('f \<Rightarrow> CandidateAnnuli list option)" where
  "dd_append annuli pfilter c =
     annuli(pfilter \<mapsto> (case annuli pfilter of None \<Rightarrow> [] | Some cands \<Rightarrow> cands) @ [c])"

fun load_candidates ::
  "'f \<Rightarrow> xml list \<Rightarrow> ('f \<Rightarrow> CandidateAnnuli list option)
     \<Rightarrow> error + ('f \<Rightarrow> CandidateAnnuli list option)" where
  "load_candidates pfilter [] annuli = Inr annuli"
| "load_candidates pfilter (candidate # rest) annuli =
     (case candidate_of candidate of
        Inl e \<Rightarrow> Inl e
      | Inr cand \<Rightarrow> load_candidates pfilter rest (dd_append annuli pfilter cand))"

text \<open>
  The loop \<open>for band in root\<close> of \<open>xml_load\<close>. The constructor \<open>passband.Passband\<close>,
  which turns the name of a filter into the filter or raises, is the parameter
  \<open>Passband\<close>; it is given what \<open>band.get('name')\<close> returns.
\<close>

fun load_bands ::
  "(string option \<Rightarrow> error + 'f) \<Rightarrow> bool \<Rightarrow> xml list \<Rightarrow> ('f \<Rightarrow> CandidateAnnuli list option)
     \<Rightarrow> error + ('f \<Rightarrow> CandidateAnnuli list option)" where
  "load_bands Passband best_only [] annuli = Inr annuli"
| "load_bands Passband best_only (band # rest) annuli =
     (case Passband (xml_get band ''name'') of
        Inl e \<Rightarrow> Inl e
      | Inr pfilter \<Rightarrow>
          if best_only
          then (case candidate_of band of
                  Inl e \<Rightarrow> Inl e
                | Inr best \<Rightarrow>
                    load_bands Passband best_only rest (dd_append annuli pfilter best))
          else (case load_candidates pfilter (children band) annuli of
                  Inl e \<Rightarrow> Inl e
                | Inr annuli' \<Rightarrow> load_bands Passband best_only rest annuli'))"

text \<open>
  \<open>CandidateAnnuli.xml_load(xml_path, best_only)\<close>: open the file (\<open>IOError\<close> when it
  cannot be read), parse it and collect the candidates of each band.
\<close>

definition xml_load ::
  "(string option \<Rightarrow> error + 'f) \<Rightarrow> filesystem \<Rightarrow> path \<Rightarrow> bool
     \<Rightarrow> error + ('f \<Rightarrow> CandidateAnnuli list option)" where
  "xml_load Passband fs xml_path best_only =
     (case fs xml_path of
        None \<Rightarrow> Inl IOError
      | Some doc \<Rightarrow> load_bands Passband best_only (children (doc_root doc)) Map.empty)"

text \<open>
  Notions for stating what \<open>xml_dump\<close> writes and \<open>xml_load\<close> reads back: a
  candidate with each value as it is read back, that is the double nearest to the
  value rounded as \<open>'%.5f'\<close> and \<open>'%.8f'\<close> round it; the candidate that \<open>min\<close>
  selects from a list that is not empty; and the \<open>band\<close> element of a filter and its
  candidates.
\<close>

definition rounded :: "CandidateAnnuli \<Rightarrow> CandidateAnnuli" where
  "rounded c =
     \<lparr>aperture = nearest_double (round_decimal 5 (aperture c)),
      annulus = nearest_double (round_decimal 5 (annulus c)),
      dannulus = nearest_double (round_decimal 5 (dannulus c)),
      stdev = nearest_double (round_decimal 8 (stdev c))\<rparr>"

definition best_of :: "CandidateAnnuli list \<Rightarrow> CandidateAnnuli" where
  "best_of cands =
     foldl (\<lambda>best c. if stdev c < stdev best then c else best) (hd cands) (tl cands)"

definition band_of :: "('f \<Rightarrow> string) \<Rightarrow> 'f \<Rightarrow> CandidateAnnuli list \<Rightarrow> xml" where
  "band_of name pfilter cands =
     Element ''band'' ((''name'', name pfilter) # candidate_kwargs (best_of cands)) None
       (map cand_element (sort_annuli cands))"

section \<open>Example data\<close>

text \<open>
  Two filters, \<open>I\<close> (key 2) and \<open>V\<close> (key 5), with one and two candidates; the
  candidates of \<open>V\<close> are not in the order of their sky annuli, and the values
  \<open>1/3\<close>, \<open>2/3\<close> and \<open>1/64\<close> have more decimals than are written.
\<close>

definition ex_annuli :: "nat annuli_dict" where
  "ex_annuli =
     [(5, [\<lparr>aperture = 3, annulus = 5, dannulus = 2, stdev = 1 / 3\<rparr>,
           \<lparr>aperture = 2 / 3, annulus = 4, dannulus = 2, stdev = 1 / 2\<rparr>]),
      (2, [\<lparr>aperture = 1, annulus = 1, dannulus = 1 / 64, stdev = 1 / 100\<rparr>])]"

definition ex_name :: "nat \<Rightarrow> string" where
  "ex_name f = (if f = 5 then ''V'' else ''I'')"

definition ex_Passband :: "string option \<Rightarrow> error + nat" where
  "ex_Passband s =
     (if s = Some ''V'' then Inr 5 else if s = Some ''I'' then Inr 2 else Inl ValueError)"

definition ex_band_I :: xml where
  "ex_band_I =
     Element ''band''
       [(''name'', ''I''), (''aperture'', ''1.00000''), (''annulus'', ''1.00000''),
        (''dannulus'', ''0.01562''), (''stdev'', ''0.01000000'')] None
       [Element ''candidate''
          [(''aperture'', ''1.00000''), (''annulus'', ''1.00000''),
           (''dannulus'', ''0.01562''), (''stdev'', ''0.01000000'')] None []]"

definition ex_band_V :: xml where
  "ex_band_V =
     Element ''band''
       [(''name'', ''V''), (''aperture'', ''3.00000''), (''annulus'', ''5.00000''),
        (''dannulus'', ''2.00000''), (''stdev'', ''0.33333333'')] None
       [Element ''candidate''
          [(''aperture'', ''0.66667''), (''annulus'', ''4.00000''),
           (''dannulus'', ''2.00000''), (''stdev'', ''0.50000000'')] None [],
        Element ''candidate''
          [(''aperture'', ''3.00000''), (''annulus'', ''5.00000''),
           (''dannulus'', ''2.00000''), (''stdev'', ''0.33333333'')] None []]"

definition ex_root :: xml where
  "ex_root = Element ''annuli'' [] None [ex_band_I, ex_band_V]"

definition ex_fs :: filesystem where
  "ex_fs = Map.empty(''annuli.xml'' \<mapsto> \<lparr>doc_dtd = CandidateAnnuli_XML_DTD, doc_root = ex_root\<rparr>)"

definition ex_annuli_sorted :: "nat annuli_dict" where
  "ex_annuli_sorted =
     [(5, [\<lparr>aperture = 2 / 3, annulus = 4, dannulus = 2, stdev = 1 / 2\<rparr>,
           \<lparr>aperture = 3, annulus = 5, dannulus = 2, stdev = 1 / 3\<rparr>]),
      (2, [\<lparr>aperture = 1, annulus = 1, dannulus = 1 / 64, stdev = 1 / 100\<rparr>])]"

section \<open>Properties\<close>

subsection \<open>An empty XMLOffsetFile cannot be saved\<close>

lemma empty_offsets_invalid:
  "\<not> valid_document (toxml \<lparr>root = Element ''offsets'' [(''size'', ''0'')] None []\<rparr>)"
  by (simp add: valid_document_def toxml_def XMLOffsetFile_XML_DTD_def)

text \<open>
  Claim C10. A freshly constructed \<open>XMLOffsetFile\<close> (no path given) has no offsets,
  and \<open>dump\<close> on it, to any path and from any file system, writes the file and then
  raises the validation error of lxml: the root \<open>offsets\<close> has no \<open>offset\<close> child,
  where the DTD asks for \<open>(offset+)\<close>.
\<close>

theorem dump_empty_fails:
  "\<exists>self. XMLOffsetFile_init fs None = Inr self
     \<and> XMLOffsetFile_len self = 0
     \<and> dump self p fs = (fs(p \<mapsto> toxml self), Inl XMLSyntaxError)"
  by (simp add: XMLOffsetFile_init_def XMLOffsetFile_len_def xml_len_def dump_def
      validate_dtd_def empty_offsets_invalid)
subsection \<open>Decimal numerals and rounding\<close>

lemma digit_val_digit_char: "n < 10 \<Longrightarrow> digit_val (digit_char n) = Some n"
proof -
  assume "n < 10"
  then have "n = 0 \<or> n = 1 \<or> n = 2 \<or> n = 3 \<or> n = 4 \<or> n = 5 \<or> n = 6 \<or> n = 7
    \<or> n = 8 \<or> n = 9" by presburger
  then consider "n = 0" | "n = 1" | "n = 2" | "n = 3" | "n = 4" | "n = 5" | "n = 6" | "n = 7"
    | "n = 8" | "n = 9" by blast
  then show ?thesis by cases (simp_all add: digit_char_def digit_val_def)
qed

lemma digit_char_not_sign: "n < 10 \<Longrightarrow> digit_char n \<notin> {CHR ''.'', CHR ''-'', CHR ''+''}"
proof -
  assume "n < 10"
  then have "n = 0 \<or> n = 1 \<or> n = 2 \<or> n = 3 \<or> n = 4 \<or> n = 5 \<or> n = 6 \<or> n = 7
    \<or> n = 8 \<or> n = 9" by presburger
  then consider "n = 0" | "n = 1" | "n = 2" | "n = 3" | "n = 4" | "n = 5" | "n = 6" | "n = 7"
    | "n = 8" | "n = 9" by blast
  then show ?thesis by cases (simp_all add: digit_char_def)
qed

lemma parse_digits_append:
  "parse_digits acc (xs @ ys) =
     (case parse_digits acc xs of None \<Rightarrow> None | Some a \<Rightarrow> parse_digits a ys)"
  by (induction xs arbitrary: acc) (auto split: option.splits)

lemma parse_digits_str_nat: "parse_digits 0 (str_nat n) = Some n"
proof (induction n rule: str_nat.induct)
  case (1 n)
  show ?case
  proof (cases "n < 10")
    case True
    then show ?thesis by (simp add: digit_val_digit_char str_nat.simps[of n])
  next
    case False
    with 1 have ih: "parse_digits 0 (str_nat (n div 10)) = Some (n div 10)" by simp
    have "str_nat n = str_nat (n div 10) @ [digit_char (n mod 10)]"
      using False by (simp add: str_nat.simps[of n])
    then show ?thesis
      by (simp add: parse_digits_append ih digit_val_digit_char)
  qed
qed

lemma str_nat_chars: "c \<in> set (str_nat n) \<Longrightarrow> c \<notin> {CHR ''.'', CHR ''-'', CHR ''+''}"
proof (induction n rule: str_nat.induct)
  case (1 n)
  show ?case
  proof (cases "n < 10")
    case True
    with 1(2) have "c = digit_char n" by (simp add: str_nat.simps[of n])
    then show ?thesis using digit_char_not_sign[OF True] by simp
  next
    case False
    have eq: "str_nat n = str_nat (n div 10) @ [digit_char (n mod 10)]"
      using False by (simp add: str_nat.simps[of n])
    from 1(2) have "c \<in> set (str_nat (n div 10)) \<or> c = digit_char (n mod 10)"
      unfolding eq by auto
    then show ?thesis
    proof
      assume "c \<in> set (str_nat (n div 10))"
      with 1(1)[OF False] show ?thesis by blast
    next
      assume "c = digit_char (n mod 10)"
      then show ?thesis using digit_char_not_sign[of "n mod 10"] by simp
    qed
  qed
qed

lemma str_nat_nonempty: "str_nat n \<noteq> []"
  by (cases "n < 10") (simp_all add: str_nat.simps[of n])

lemma length_fixed_digits: "length (fixed_digits k n) = k"
  by (induction k arbitrary: n) simp_all

lemma parse_digits_fixed: "parse_digits 0 (fixed_digits k n) = Some (n mod 10 ^ k)"
proof (induction k arbitrary: n)
  case 0
  then show ?case by simp
next
  case (Suc k)
  have "n mod (10 * 10 ^ k) = 10 * (n div 10 mod 10 ^ k) + n mod 10"
    by (simp add: mod_mult2_eq)
  then show ?case
    by (simp add: parse_digits_append Suc digit_val_digit_char)
qed

lemma round_half_even_nonneg: "0 \<le> q \<Longrightarrow> 0 \<le> round_half_even q"
  by (auto simp: round_half_even_def Let_def)

lemma py_float_format_f:
  "py_float (format_f d x) = Inr (nearest_double (round_decimal d x))"
proof -
  define n where "n = nat (round_half_even (\<bar>x\<bar> * 10 ^ d))"
  define ip where "ip = str_nat (n div 10 ^ d)"
  define fp where "fp = fixed_digits d (n mod 10 ^ d)"
  define b where "b = ip @ CHR ''.'' # fp"
  have fmt: "format_f d x = (if x < 0 then CHR ''-'' # b else b)"
    by (simp add: format_f_def n_def ip_def fp_def b_def Let_def)
  have ipne: "ip \<noteq> []" by (simp add: ip_def str_nat_nonempty)
  have ipc: "\<And>c. c \<in> set ip \<Longrightarrow> c \<noteq> CHR ''.'' \<and> c \<noteq> CHR ''-'' \<and> c \<noteq> CHR ''+''"
    using str_nat_chars by (auto simp: ip_def)
  obtain c0 cs where ip: "ip = c0 # cs" using ipne by (cases ip) auto
  have c0: "c0 \<noteq> CHR ''-''" "c0 \<noteq> CHR ''+''" using ipc[of c0] ip by auto
  have t1: "take (Suc 0) b = [c0]" by (simp add: b_def ip)
  have tw: "takeWhile (\<lambda>c. c \<noteq> CHR ''.'') b = ip"
    unfolding b_def using ipc by (simp add: takeWhile_append2)
  have dw: "dropWhile (\<lambda>c. c \<noteq> CHR ''.'') b = CHR ''.'' # fp"
    unfolding b_def using ipc by (simp add: dropWhile_append2)
  have pi: "parse_digits 0 ip = Some (n div 10 ^ d)" by (simp add: ip_def parse_digits_str_nat)
  have pf: "parse_digits 0 fp = Some (n mod 10 ^ d)" "length fp = d"
    by (simp_all add: fp_def parse_digits_fixed length_fixed_digits)
  have val: "(of_nat (n div 10 ^ d) :: rat) + of_nat (n mod 10 ^ d) / 10 ^ d = of_nat n / 10 ^ d"
  proof -
    have "(of_nat n :: rat) = of_nat (10 ^ d * (n div 10 ^ d) + n mod 10 ^ d)" by simp
    also have "\<dots> = 10 ^ d * of_nat (n div 10 ^ d) + of_nat (n mod 10 ^ d)"
      by (simp only: of_nat_add of_nat_mult of_nat_power of_nat_numeral)
    finally show ?thesis by (simp add: field_simps)
  qed
  have nn: "(of_nat n :: rat) = of_int (round_half_even (\<bar>x\<bar> * 10 ^ d))"
    unfolding n_def using round_half_even_nonneg[of "\<bar>x\<bar> * 10 ^ d"] by simp
  show ?thesis
  proof (cases "x < 0")
    case True
    have "py_float (CHR ''-'' # b) = Inr (nearest_double (- (of_nat n / 10 ^ d)))"
      unfolding py_float_def using ipne by (simp add: tw dw pi pf val)
    then show ?thesis using True by (simp add: fmt nn round_decimal_def)
  next
    case False
    have "py_float b = Inr (nearest_double (of_nat n / 10 ^ d))"
      unfolding py_float_def using ipne c0 by (simp add: t1 tw dw pi pf val)
    then show ?thesis using False by (simp add: fmt nn round_decimal_def)
  qed
qed

lemma round_half_even_error: "\<bar>of_int (round_half_even q) - q\<bar> \<le> 1 / 2"
proof -
  define f where "f = \<lfloor>q\<rfloor>"
  have a: "of_int f \<le> q" "q < of_int f + 1" unfolding f_def by linarith+
  have "round_half_even q = f \<and> q - of_int f \<le> 1 / 2
      \<or> round_half_even q = f + 1 \<and> 1 / 2 \<le> q - of_int f"
    unfolding round_half_even_def Let_def f_def[symmetric] by auto
  then show ?thesis
  proof
    assume "round_half_even q = f \<and> q - of_int f \<le> 1 / 2"
    then show ?thesis using a by (simp add: abs_if)
  next
    assume "round_half_even q = f + 1 \<and> 1 / 2 \<le> q - of_int f"
    then show ?thesis using a by (simp add: abs_if)
  qed
qed

lemma round_half_even_range:
  "of_int \<lfloor>q\<rfloor> \<le> (of_int (round_half_even q) :: rat)"
  "round_half_even q \<le> \<lfloor>q\<rfloor> + 1"
  by (auto simp: round_half_even_def Let_def)

lemma round_half_even_mono: "q \<le> q' \<Longrightarrow> round_half_even q \<le> round_half_even q'"
proof -
  assume le: "q \<le> q'"
  then have fl: "\<lfloor>q\<rfloor> \<le> \<lfloor>q'\<rfloor>" by (rule floor_mono)
  show ?thesis
  proof (cases "\<lfloor>q\<rfloor> = \<lfloor>q'\<rfloor>")
    case True
    then show ?thesis using le
      by (auto simp: round_half_even_def Let_def)
  next
    case False
    with fl have "\<lfloor>q\<rfloor> + 1 \<le> \<lfloor>q'\<rfloor>" by simp
    moreover have "round_half_even q \<le> \<lfloor>q\<rfloor> + 1" by (rule round_half_even_range)
    moreover have "\<lfloor>q'\<rfloor> \<le> round_half_even q'"
      by (auto simp: round_half_even_def Let_def)
    ultimately show ?thesis by linarith
  qed
qed

lemma round_decimal_error: "\<bar>round_decimal d x - x\<bar> \<le> 1 / (2 * 10 ^ d)"
proof -
  define p :: rat where "p = 10 ^ d"
  have p: "0 < p" by (simp add: p_def)
  define r :: rat where "r = of_int (round_half_even (\<bar>x\<bar> * p))"
  have e: "\<bar>r - \<bar>x\<bar> * p\<bar> \<le> 1 / 2" unfolding r_def by (rule round_half_even_error)
  have "\<bar>r / p - \<bar>x\<bar>\<bar> = \<bar>r - \<bar>x\<bar> * p\<bar> / p"
    using p by (simp add: field_simps abs_divide flip: abs_mult_pos)
  also have "\<dots> \<le> (1 / 2) / p" by (rule divide_right_mono[OF e]) (use p in simp)
  finally have b: "\<bar>r / p - \<bar>x\<bar>\<bar> \<le> 1 / (2 * p)" by simp
  have "round_decimal d x - x = (if x < 0 then - (r / p - \<bar>x\<bar>) else r / p - \<bar>x\<bar>)"
    by (simp add: round_decimal_def r_def p_def)
  then have "\<bar>round_decimal d x - x\<bar> = \<bar>r / p - \<bar>x\<bar>\<bar>" by (simp split: if_splits)
  with b show ?thesis by (simp add: p_def)
qed

lemma round_decimal_mono: "x \<le> y \<Longrightarrow> round_decimal d x \<le> round_decimal d y"
proof -
  assume le: "x \<le> y"
  define p :: rat where "p = 10 ^ d"
  have p: "0 < p" by (simp add: p_def)
  have nn: "\<And>z. 0 \<le> (of_int (round_half_even (\<bar>z\<bar> * p)) :: rat) / p"
    using p round_half_even_nonneg[of "\<bar>_\<bar> * p"] by simp
  consider "0 \<le> x" | "x < 0" "0 \<le> y" | "y < 0" using le by linarith
  then show ?thesis
  proof cases
    case 1
    then have "\<bar>x\<bar> * p \<le> \<bar>y\<bar> * p" using le p by (simp add: mult_right_mono)
    then have "round_half_even (\<bar>x\<bar> * p) \<le> round_half_even (\<bar>y\<bar> * p)"
      by (rule round_half_even_mono)
    then have "(of_int (round_half_even (\<bar>x\<bar> * p)) :: rat) / p \<le> of_int (round_half_even (\<bar>y\<bar> * p)) / p"
      using p by (simp add: divide_right_mono)
    then show ?thesis using 1 le by (simp add: round_decimal_def p_def)
  next
    case 2
    have "round_decimal d x \<le> 0" using 2 nn[of x] by (simp add: round_decimal_def p_def)
    moreover have "0 \<le> round_decimal d y" using 2 nn[of y] by (simp add: round_decimal_def p_def)
    ultimately show ?thesis by linarith
  next
    case 3
    then have "\<bar>y\<bar> * p \<le> \<bar>x\<bar> * p" using le p by (simp add: mult_right_mono)
    then have "round_half_even (\<bar>y\<bar> * p) \<le> round_half_even (\<bar>x\<bar> * p)"
      by (rule round_half_even_mono)
    then have "(of_int (round_half_even (\<bar>y\<bar> * p)) :: rat) / p \<le> of_int (round_half_even (\<bar>x\<bar> * p)) / p"
      using p by (simp add: divide_right_mono)
    then show ?thesis using 3 le by (simp add: round_decimal_def p_def)
  qed
qed

text \<open>Rules that evaluate the conversions on numerals.\<close>

lemma fixed_digits_numeral:
  "fixed_digits (numeral k) n = fixed_digits (pred_numeral k) (n div 10) @ [digit_char (n mod 10)]"
  by (simp only: numeral_eq_Suc fixed_digits.simps)

lemma floor_rat_numeral_div: "\<lfloor>numeral a / numeral b :: rat\<rfloor> = numeral a div numeral b"
proof -
  have "(numeral a / numeral b :: rat) = of_int (numeral a) / of_int (numeral b)" by simp
  then show ?thesis by (simp only: floor_divide_of_int_eq)
qed

lemmas format_eval = format_f_def round_half_even_def str_nat.simps digit_char_def
  fixed_digits_numeral floor_rat_numeral_div Let_def

subsection \<open>The nearest double\<close>

lemma bit_length_bounds:
  "n < 2 ^ bit_length n" "0 < n \<Longrightarrow> 2 ^ bit_length n \<le> 2 * n"
proof (induction n rule: bit_length.induct)
  case (1 n)
  {
    case 1
    show ?case
    proof (cases "n = 0")
      case True then show ?thesis by (simp add: bit_length.simps[of n])
    next
      case False
      have "n div 2 < 2 ^ bit_length (n div 2)" using "1.IH"(1)[OF False] .
      then have "n < 2 * 2 ^ bit_length (n div 2)" by linarith
      then show ?thesis using False by (simp add: bit_length.simps[of n])
    qed
  next
    case 2
    then have nz: "n \<noteq> 0" by simp
    show ?case
    proof (cases "n div 2 = 0")
      case True
      then have "n = 1" using nz by linarith
      then show ?thesis by (simp add: bit_length.simps[of "Suc 0"] bit_length.simps[of 0])
    next
      case False
      then have "2 ^ bit_length (n div 2) \<le> 2 * (n div 2)" using "1.IH"(2)[OF nz] by simp
      then have "2 * 2 ^ bit_length (n div 2) \<le> 2 * n" by linarith
      then show ?thesis using nz by (simp add: bit_length.simps[of n])
    qed
  }
qed

lemma pow2_le_rat: "(2::nat) ^ k \<le> n \<Longrightarrow> (2::rat) ^ k \<le> of_nat n"
  using of_nat_mono[of "2 ^ k" n, where 'a = rat] by simp

lemma le_pow2_rat: "n \<le> (2::nat) ^ k \<Longrightarrow> (of_nat n :: rat) \<le> 2 ^ k"
  using of_nat_mono[of n "2 ^ k", where 'a = rat] by simp

lemma ilog2_bounds:
  assumes "0 < a"
  shows "2 powi ilog2 a \<le> a" "a < 2 powi (ilog2 a + 1)"
proof -
  have "2 powi ilog2 a \<le> a \<and> a < 2 powi (ilog2 a + 1)"
  proof (cases "1 \<le> a")
    case True
    define n where "n = nat \<lfloor>a\<rfloor>"
    have n1: "0 < n" using True by (simp add: n_def)
    have na: "of_nat n \<le> a" "a < of_nat n + 1"
      using True unfolding n_def by (simp_all, linarith+)
    define b where "b = bit_length n"
    have b: "n < 2 ^ b" "2 ^ b \<le> 2 * n" using bit_length_bounds[of n] n1 by (simp_all add: b_def)
    have b1: "0 < b" using b(1) n1 by (cases b) simp_all
    then obtain b' where b': "b = Suc b'" by (cases b) simp_all
    have il: "ilog2 a = int b'" using True by (simp add: ilog2_def n_def[symmetric] b_def[symmetric] b')
    have "(2::nat) ^ b' \<le> n" using b(2) by (simp add: b')
    then have "(2::rat) ^ b' \<le> of_nat n" by (rule pow2_le_rat)
    then have l: "(2::rat) ^ b' \<le> a" using na(1) by linarith
    have "n + 1 \<le> 2 ^ b" using b(1) by simp
    then have "(of_nat (n + 1) :: rat) \<le> 2 ^ b" by (rule le_pow2_rat)
    then have u: "a < (2::rat) ^ b" using na(2) by simp
    have "2 powi (int b' + 1) = (2::rat) ^ b"
      by (simp add: b' power_int_add)
    then show ?thesis using l u by (simp add: il)
  next
    case False
    then have a1: "a < 1" by simp
    define c where "c = \<lceil>1 / a\<rceil>"
    have "1 < 1 / a" using assms a1 by simp
    then have c2: "2 \<le> c" unfolding c_def by linarith
    have ca: "1 / a \<le> of_int c" "of_int c - 1 < 1 / a" unfolding c_def by linarith+
    define n where "n = nat (c - 1)"
    have n1: "0 < n" using c2 by (simp add: n_def)
    have nc: "int n = c - 1" using c2 by (simp add: n_def)
    define k where "k = bit_length n"
    have b: "n < 2 ^ k" "2 ^ k \<le> 2 * n" using bit_length_bounds[of n] n1 by (simp_all add: k_def)
    have k1: "0 < k" using b(1) n1 by (cases k) simp_all
    then obtain k' where k': "k = Suc k'" by (cases k) simp_all
    have il: "ilog2 a = - int k" using False by (simp add: ilog2_def c_def[symmetric] n_def[symmetric] k_def[symmetric])
    have nr: "(of_nat n :: rat) = of_int c - 1"
    proof -
      have "(of_nat n :: rat) = of_int (int n)" by simp
      also have "\<dots> = of_int c - 1" by (simp only: nc of_int_diff of_int_1)
      finally show ?thesis .
    qed
    have "(2::nat) ^ k' \<le> n" using b(2) by (simp add: k')
    then have "(2::rat) ^ k' \<le> of_nat n" by (rule pow2_le_rat)
    then have l: "(2::rat) ^ k' < 1 / a" using ca(2) nr by linarith
    have "n + 1 \<le> 2 ^ k" using b(1) by simp
    then have "(of_nat (n + 1) :: rat) \<le> 2 ^ k" by (rule le_pow2_rat)
    moreover have "(of_nat (n + 1) :: rat) = of_nat n + 1" by simp
    ultimately have "of_int c \<le> (2::rat) ^ k" using nr by linarith
    then have u: "1 / a \<le> (2::rat) ^ k" using ca(1) by linarith
    have p: "(0::rat) < 2 ^ k" "(0::rat) < 2 ^ k'" by simp_all
    have lo: "1 / 2 ^ k \<le> a" using u assms p(1) by (simp add: field_simps)
    have hi: "a < 1 / 2 ^ k'" using l assms p(2) by (simp add: field_simps)
    have e1: "2 powi (- int k) = 1 / (2::rat) ^ k" by (simp add: power_int_minus_divide)
    have e2: "2 powi (- int k + 1) = 1 / (2::rat) ^ k'"
    proof -
      have "- int k + 1 = - int k'" by (simp add: k')
      then show ?thesis by (simp add: power_int_minus_divide)
    qed
    show ?thesis using lo hi by (simp only: il e1 e2 simp_thms)
  qed
  then show "2 powi ilog2 a \<le> a" "a < 2 powi (ilog2 a + 1)" by simp_all
qed


lemma ilog2_mono:
  assumes "0 < a" "a \<le> b"
  shows "ilog2 a \<le> ilog2 b"
proof (rule ccontr)
  assume "\<not> ilog2 a \<le> ilog2 b"
  then have "ilog2 b + 1 \<le> ilog2 a" by simp
  then have "(2::rat) powi (ilog2 b + 1) \<le> 2 powi ilog2 a"
    by (intro power_int_increasing) simp_all
  moreover have "b < 2 powi (ilog2 b + 1)" using ilog2_bounds(2)[of b] assms by simp
  moreover have "2 powi ilog2 a \<le> a" using ilog2_bounds(1)[OF assms(1)] .
  ultimately show False using assms(2) by linarith
qed

lemma ulp_exponent_mono: "0 < a \<Longrightarrow> a \<le> b \<Longrightarrow> ulp_exponent a \<le> ulp_exponent b"
  using ilog2_mono[of a b] by (simp add: ulp_exponent_def)

lemma round_half_even_of_int: "round_half_even (of_int k) = k"
  by (simp add: round_half_even_def)

text \<open>Rounding a positive number to the grid of its binade.\<close>

lemma nearest_double_pos_mono:
  assumes "0 < x" "x \<le> y"
  shows "of_int (round_half_even (x / 2 powi ulp_exponent x)) * 2 powi ulp_exponent x
       \<le> (of_int (round_half_even (y / 2 powi ulp_exponent y)) * 2 powi ulp_exponent y :: rat)"
proof -
  define e where "e = ulp_exponent x"
  define e' where "e' = ulp_exponent y"
  have y: "0 < y" using assms by simp
  have ee: "e \<le> e'" unfolding e_def e'_def by (rule ulp_exponent_mono[OF assms])
  have p: "(0::rat) < 2 powi e" "(0::rat) < 2 powi e'" by simp_all
  show ?thesis unfolding e_def[symmetric] e'_def[symmetric]
  proof (cases "e = e'")
    case True
    have "x / 2 powi e \<le> y / 2 powi e" using assms(2) p(1) by (simp add: divide_right_mono)
    then have "round_half_even (x / 2 powi e) \<le> round_half_even (y / 2 powi e)"
      by (rule round_half_even_mono)
    then have "(of_int (round_half_even (x / 2 powi e)) :: rat) \<le> of_int (round_half_even (y / 2 powi e))"
      by simp
    then show "of_int (round_half_even (x / 2 powi e)) * 2 powi e
       \<le> (of_int (round_half_even (y / 2 powi e')) * 2 powi e' :: rat)"
      unfolding True[symmetric] using p(1) by (simp add: mult_right_mono)
  next
    case False
    then have lt: "e + 1 \<le> e'" using ee by simp
    have "- 1074 \<le> e" by (simp add: e_def ulp_exponent_def)
    then have e'il: "e' = ilog2 y - 52" using lt by (simp add: e'_def ulp_exponent_def max_def split: if_splits)
    have eil: "ilog2 x + 1 \<le> e + 53" by (simp add: e_def ulp_exponent_def)
    have "x < 2 powi (ilog2 x + 1)" by (rule ilog2_bounds(2)[OF assms(1)])
    also have "\<dots> \<le> 2 powi (e + 53)" using eil by (intro power_int_increasing) simp_all
    also have "\<dots> = 2 powi e * 2 ^ 53" by (simp add: power_int_add)
    finally have "x / 2 powi e \<le> 2 ^ 53" using p(1) by (simp add: field_simps)
    then have "round_half_even (x / 2 powi e) \<le> round_half_even (of_int (2 ^ 53))"
      by (intro round_half_even_mono) simp
    then have "round_half_even (x / 2 powi e) \<le> 2 ^ 53" by (simp only: round_half_even_of_int)
    then have "(of_int (round_half_even (x / 2 powi e)) :: rat) \<le> of_int (2 ^ 53)"
      by (simp only: of_int_le_iff)
    then have "(of_int (round_half_even (x / 2 powi e)) :: rat) * 2 powi e \<le> 2 ^ 53 * 2 powi e"
      using p(1) by (simp add: mult_right_mono)
    also have "\<dots> = 2 powi (e + 53)" by (simp add: power_int_add)
    also have "\<dots> \<le> 2 powi (e' + 52)" using lt by (intro power_int_increasing) simp_all
    finally have up: "(of_int (round_half_even (x / 2 powi e)) :: rat) * 2 powi e \<le> 2 powi (e' + 52)" .
    have "(2::rat) powi (e' + 52) = 2 powi ilog2 y" by (simp add: e'il)
    also have "\<dots> \<le> y" by (rule ilog2_bounds(1)[OF y])
    finally have "2 powi (e' + 52) \<le> y" .
    moreover have "(2::rat) powi (e' + 52) = 2 powi e' * 2 ^ 52" by (simp add: power_int_add)
    ultimately have "2 ^ 52 \<le> y / 2 powi e'" using p(2) by (simp add: field_simps)
    then have "round_half_even (of_int (2 ^ 52)) \<le> round_half_even (y / 2 powi e')"
      by (intro round_half_even_mono) simp
    then have "2 ^ 52 \<le> round_half_even (y / 2 powi e')" by (simp only: round_half_even_of_int)
    then have "(of_int (2 ^ 52) :: rat) \<le> of_int (round_half_even (y / 2 powi e'))"
      by (simp only: of_int_le_iff)
    then have "2 ^ 52 * 2 powi e' \<le> (of_int (round_half_even (y / 2 powi e')) :: rat) * 2 powi e'"
      using p(2) by (simp add: mult_right_mono)
    moreover have "(2::rat) powi (e' + 52) = 2 ^ 52 * 2 powi e'" by (simp add: power_int_add)
    ultimately have lo: "2 powi (e' + 52) \<le> (of_int (round_half_even (y / 2 powi e')) :: rat) * 2 powi e'"
      by simp
    show "of_int (round_half_even (x / 2 powi e)) * 2 powi e
       \<le> (of_int (round_half_even (y / 2 powi e')) * 2 powi e' :: rat)"
      using up lo by (rule order_trans)
  qed
qed

lemma nearest_double_nonneg: "0 \<le> q \<Longrightarrow> 0 \<le> nearest_double q"
proof -
  assume q: "0 \<le> q"
  have "0 \<le> \<bar>q\<bar> / 2 powi ulp_exponent \<bar>q\<bar>" by simp
  then have "0 \<le> round_half_even (\<bar>q\<bar> / 2 powi ulp_exponent \<bar>q\<bar>)" by (rule round_half_even_nonneg)
  then show ?thesis using q by (simp add: nearest_double_def Let_def sgn_if)
qed

lemma nearest_double_minus: "nearest_double (- q) = - nearest_double q"
  by (simp add: nearest_double_def Let_def sgn_if)

lemma nearest_double_mono:
  assumes "x \<le> y"
  shows "nearest_double x \<le> nearest_double y"
proof -
  have pos: "\<And>a b. 0 < a \<Longrightarrow> a \<le> b \<Longrightarrow> nearest_double a \<le> nearest_double b"
    using nearest_double_pos_mono by (simp add: nearest_double_def Let_def sgn_if)
  consider "0 < x" | "x \<le> 0" "0 \<le> y" | "y < 0" using assms by linarith
  then show ?thesis
  proof cases
    case 1 then show ?thesis using pos assms by simp
  next
    case 2
    have "nearest_double x = - nearest_double (- x)" by (simp add: nearest_double_minus)
    moreover have "0 \<le> nearest_double (- x)" using 2(1) by (intro nearest_double_nonneg) simp
    moreover have "0 \<le> nearest_double y" using 2(2) by (rule nearest_double_nonneg)
    ultimately show ?thesis by linarith
  next
    case 3
    have "nearest_double (- y) \<le> nearest_double (- x)" using 3 assms by (intro pos) simp_all
    then show ?thesis by (simp add: nearest_double_minus)
  qed
qed

lemma nearest_double_error: "\<bar>nearest_double q - q\<bar> \<le> max (\<bar>q\<bar> / 2 ^ 53) (1 / 2 ^ 1075)"
proof (cases "q = 0")
  case True
  then show ?thesis by (simp add: nearest_double_def)
next
  case False
  define a where "a = \<bar>q\<bar>"
  have a: "0 < a" using False by (simp add: a_def)
  define e where "e = ulp_exponent a"
  define r :: rat where "r = of_int (round_half_even (a / 2 powi e))"
  have p: "(0::rat) < 2 powi e" by simp
  have nd: "nearest_double q = sgn q * (r * 2 powi e)"
    using False by (simp add: nearest_double_def Let_def a_def e_def r_def)
  have qa: "q = sgn q * a" by (simp add: a_def sgn_if)
  have "nearest_double q - q = sgn q * (r * 2 powi e - a)"
    unfolding nd by (subst (2) qa) (simp add: algebra_simps)
  then have "\<bar>nearest_double q - q\<bar> = \<bar>r * 2 powi e - a\<bar>"
    using False by (simp add: abs_mult sgn_if)
  also have "r * 2 powi e - a = (r - a / 2 powi e) * 2 powi e"
    using p by (simp add: field_simps)
  also have "\<bar>(r - a / 2 powi e) * 2 powi e\<bar> = \<bar>r - a / 2 powi e\<bar> * 2 powi e"
    using p by (simp add: abs_mult)
  also have "\<dots> \<le> 1 / 2 * 2 powi e"
    using round_half_even_error[of "a / 2 powi e"] p unfolding r_def
    by (intro mult_right_mono) simp_all
  finally have b: "\<bar>nearest_double q - q\<bar> \<le> 2 powi e / 2" by simp
  have "2 powi e / 2 \<le> max (a / 2 ^ 53) (1 / 2 ^ 1075)"
  proof (cases "e = - 1074")
    case True
    have "(2::rat) powi e / 2 = 1 / 2 ^ 1075" unfolding True by (simp add: power_int_minus_divide)
    then show ?thesis by simp
  next
    case False
    then have el: "ilog2 a = e + 52" by (simp add: e_def ulp_exponent_def max_def split: if_splits)
    have "(2::rat) powi (e + 52) \<le> a" using ilog2_bounds(1)[OF a] by (simp add: el)
    moreover have "(2::rat) powi (e + 52) = 2 powi e * 2 ^ 52" by (simp add: power_int_add)
    ultimately have "2 powi e * 2 ^ 52 \<le> a" by simp
    then have "2 powi e / 2 \<le> a / 2 ^ 53" by (simp add: field_simps)
    then show ?thesis by simp
  qed
  then show ?thesis using b unfolding a_def by (rule order_trans[rotated])
qed

lemma bit_length_numeral: "bit_length (numeral k) = Suc (bit_length (numeral k div 2))"
  by (simp add: bit_length.simps[of "numeral k"])

lemma bit_length_0: "bit_length 0 = 0"
  by (simp add: bit_length.simps[of 0])

lemma bit_length_1: "bit_length (Suc 0) = Suc 0"
  by (simp add: bit_length.simps[of "Suc 0"] bit_length_0)

lemma ceiling_rat_numeral_div: "\<lceil>numeral a / numeral b :: rat\<rceil> = - (- numeral a div numeral b)"
proof -
  have "- (numeral a / numeral b :: rat) = of_int (- numeral a) / of_int (numeral b)" by simp
  then show ?thesis by (simp only: ceiling_def floor_divide_of_int_eq)
qed

lemmas ilog2_eval = ilog2_def bit_length_numeral bit_length_0 bit_length_1
  floor_rat_numeral_div ceiling_rat_numeral_div

lemmas double_eval = nearest_double_def ulp_exponent_def round_half_even_def Let_def
   floor_rat_numeral_div

subsection \<open>CandidateAnnuli: what xml_dump builds\<close>

lemma candidate_of_cand_element: "candidate_of (cand_element c) = Inr (rounded c)"
  by (simp add: candidate_of_def sum_bind_def float_attr_def xml_get_def cand_element_def
      candidate_kwargs_def py_float_format_f rounded_def)

lemma candidate_of_band_of: "candidate_of (band_of name k l) = Inr (rounded (best_of l))"
  by (simp add: candidate_of_def sum_bind_def float_attr_def xml_get_def band_of_def
      candidate_kwargs_def py_float_format_f rounded_def)

lemma name_band_of: "xml_get (band_of name k l) ''name'' = Some (name k)"
  by (simp add: xml_get_def band_of_def)

lemma xml_append_Element: "xml_append (Element t a x cs) c = Element t a x (cs @ [c])"
  by (simp add: xml_append_def)

lemma foldl_xml_append:
  "foldl (\<lambda>b c. xml_append b (g c)) (Element t a x cs) l = Element t a x (cs @ map g l)"
  by (induction l arbitrary: cs) (simp_all add: xml_append_def)

lemma foldl_min_props:
  fixes k :: "'a \<Rightarrow> 'k::linorder"
  defines "step \<equiv> (\<lambda>best c. if k c < k best then c else best)"
  shows "foldl step b xs \<in> insert b (set xs)
       \<and> k (foldl step b xs) \<le> k b \<and> (\<forall>c\<in>set xs. k (foldl step b xs) \<le> k c)"
proof (induction xs arbitrary: b)
  case Nil
  then show ?case by simp
next
  case (Cons x xs)
  from Cons[of "step b x"] show ?case
    by (auto simp: step_def split: if_splits)
qed

lemma py_min_best_of: "l \<noteq> [] \<Longrightarrow> py_min stdev l = Inr (best_of l)"
  by (cases l) (simp_all add: best_of_def)

lemma best_of_in: "l \<noteq> [] \<Longrightarrow> best_of l \<in> set l"
  using foldl_min_props[of stdev "hd l" "tl l"] by (cases l) (auto simp: best_of_def)

lemma best_of_least: "c \<in> set l \<Longrightarrow> stdev (best_of l) \<le> stdev c"
  using foldl_min_props[of stdev "hd l" "tl l"] by (cases l) (auto simp: best_of_def)

lemma map_fst_dict_replace: "map fst (dict_replace a k v) = map fst a"
  by (induction a) (auto simp: dict_replace_def)

lemma map_of_dict_replace_other:
  "k' \<noteq> k \<Longrightarrow> map_of (dict_replace a k v) k' = map_of a k'"
  by (induction a) (auto simp: dict_replace_def)

lemma dump_bands_ok:
  assumes "distinct (map fst annuli)" "distinct ks"
    and "\<forall>k\<in>set ks. \<exists>l. map_of annuli k = Some l \<and> l \<noteq> []"
  shows "dump_bands name ks (Element t a x bs) annuli =
     (map (\<lambda>item. (fst item, if fst item \<in> set ks then sort_annuli (snd item) else snd item)) annuli,
      Inr (Element t a x (bs @ map (\<lambda>k. band_of name k (the (map_of annuli k))) ks)))"
  using assms
proof (induction ks arbitrary: bs annuli)
  case Nil
  then show ?case by simp
next
  case (Cons pf rest)
  from Cons.prems(3) obtain l where l: "map_of annuli pf = Some l" "l \<noteq> []" by auto
  define annuli' where "annuli' = dict_replace annuli pf (sort_annuli l)"
  have d': "distinct (map fst annuli')" using Cons.prems(1) by (simp add: annuli'_def map_fst_dict_replace)
  have pfr: "pf \<notin> set rest" "distinct rest" using Cons.prems(2) by auto
  have other: "\<And>k. k \<in> set rest \<Longrightarrow> map_of annuli' k = map_of annuli k"
  proof -
    fix k assume "k \<in> set rest"
    with pfr have "k \<noteq> pf" by auto
    then show "map_of annuli' k = map_of annuli k"
      unfolding annuli'_def by (rule map_of_dict_replace_other)
  qed
  have p3: "\<forall>k\<in>set rest. \<exists>l. map_of annuli' k = Some l \<and> l \<noteq> []"
    using Cons.prems(3) other by simp
  have ih: "dump_bands name rest (Element t a x (bs @ [band_of name pf l])) annuli' =
     (map (\<lambda>item. (fst item, if fst item \<in> set rest then sort_annuli (snd item) else snd item)) annuli',
      Inr (Element t a x ((bs @ [band_of name pf l]) @ map (\<lambda>k. band_of name k (the (map_of annuli' k))) rest)))"
    by (rule Cons.IH[OF d' pfr(2) p3])
  have bands: "map (\<lambda>k. band_of name k (the (map_of annuli' k))) rest
        = map (\<lambda>k. band_of name k (the (map_of annuli k))) rest"
    using other by simp
  have items: "map (\<lambda>item. (fst item, if fst item \<in> set rest then sort_annuli (snd item) else snd item)) annuli'
      = map (\<lambda>item. (fst item, if fst item \<in> set (pf # rest) then sort_annuli (snd item) else snd item)) annuli"
  proof -
    have "\<And>item. item \<in> set annuli \<Longrightarrow> fst item = pf \<Longrightarrow> snd item = l"
      using l(1) Cons.prems(1) by (metis map_of_eq_Some_iff option.inject prod.collapse)
    then show ?thesis
      using pfr(1) by (auto simp: annuli'_def dict_replace_def)
  qed
  have step: "dump_bands name (pf # rest) (Element t a x bs) annuli
      = dump_bands name rest (Element t a x (bs @ [band_of name pf l])) annuli'"
    using l by (simp add: dict_get_def py_min_best_of annuli'_def band_of_def foldl_xml_append
        xml_append_Element Let_def)
  show ?case unfolding step ih bands items using l(1) by simp
qed

lemma valid_cand_element: "valid_element CandidateAnnuli_XML_DTD (cand_element c)"
  by (simp add: cand_element_def candidate_kwargs_def CandidateAnnuli_XML_DTD_def)

lemma valid_band_of: "valid_element CandidateAnnuli_XML_DTD (band_of name k l)"
proof -
  have a: "dropWhile (\<lambda>t. t = ''candidate'') (map tag (map cand_element (sort_annuli l))) = []"
    by (simp add: dropWhile_eq_Nil_conv cand_element_def)
  have b: "list_all (valid_element CandidateAnnuli_XML_DTD) (map cand_element (sort_annuli l))"
    by (simp add: list_all_iff valid_cand_element)
  have c: "map_of (elements CandidateAnnuli_XML_DTD) ''band'' = Some (Children [(''candidate'', ZeroOrMore)])"
    by (simp add: CandidateAnnuli_XML_DTD_def)
  have d: "list_all (\<lambda>a. (''band'', a) \<in> set (attlists CandidateAnnuli_XML_DTD))
             (map fst ((''name'', name k) # candidate_kwargs (best_of l)))"
    by (simp add: candidate_kwargs_def CandidateAnnuli_XML_DTD_def)
  have e: "list_all (\<lambda>a. a \<in> set (map fst ((''name'', name k) # candidate_kwargs (best_of l))))
               (map snd (filter (\<lambda>ea. fst ea = ''band'') (attlists CandidateAnnuli_XML_DTD)))"
    by (simp add: candidate_kwargs_def CandidateAnnuli_XML_DTD_def)
  show ?thesis
    unfolding band_of_def valid_element.simps c using a b d e by simp
qed

lemma valid_annuli_document:
  "valid_document \<lparr>doc_dtd = CandidateAnnuli_XML_DTD,
      doc_root = Element ''annuli'' [] None (map (\<lambda>k. band_of name k (g k)) ks)\<rparr>"
proof -
  have a: "dropWhile (\<lambda>t. t = ''band'') (map tag (map (\<lambda>k. band_of name k (g k)) ks)) = []"
    by (simp add: dropWhile_eq_Nil_conv band_of_def)
  have b: "list_all (valid_element CandidateAnnuli_XML_DTD) (map (\<lambda>k. band_of name k (g k)) ks)"
    by (simp add: list_all_iff valid_band_of)
  have c: "map_of (elements CandidateAnnuli_XML_DTD) ''annuli'' = Some (Children [(''band'', ZeroOrMore)])"
    by (simp add: CandidateAnnuli_XML_DTD_def)
  have d: "doctype CandidateAnnuli_XML_DTD = ''annuli''"
    by (simp add: CandidateAnnuli_XML_DTD_def)
  have e: "list_all (\<lambda>a. a \<in> set (map fst ([] :: (string \<times> string) list)))
               (map snd (filter (\<lambda>ea. fst ea = ''annuli'') (attlists CandidateAnnuli_XML_DTD)))"
    by (simp add: CandidateAnnuli_XML_DTD_def)
  show ?thesis
    unfolding valid_document_def using a b e by (simp add: c d)
qed

lemma load_candidates_ok:
  "load_candidates pf (map cand_element cs) m =
     Inr (if cs = [] then m
          else m(pf \<mapsto> (case m pf of None \<Rightarrow> [] | Some l \<Rightarrow> l) @ map rounded cs))"
  by (induction cs arbitrary: m) (auto simp: candidate_of_cand_element dd_append_def)

lemma load_bands_full:
  assumes "distinct ks" "\<forall>k\<in>set ks. Passband (Some (name k)) = Inr k \<and> g k \<noteq> []"
    and "\<forall>k\<in>set ks. m k = None"
  shows "load_bands Passband False (map (\<lambda>k. band_of name k (g k)) ks) m =
     Inr (\<lambda>f. if f \<in> set ks then Some (map rounded (sort_annuli (g f))) else m f)"
  using assms
proof (induction ks arbitrary: m)
  case Nil
  then show ?case by simp
next
  case (Cons k rest)
  define m' where "m' = m(k \<mapsto> map rounded (sort_annuli (g k)))"
  have "length (sort_annuli (g k)) = length (g k)" by (simp add: sort_annuli_def)
  then have ne: "sort_annuli (g k) \<noteq> []" using Cons.prems(2) by auto
  have lc: "load_candidates k (children (band_of name k (g k))) m = Inr m'"
    using ne Cons.prems(3) by (simp add: band_of_def load_candidates_ok m'_def)
  have m'none: "\<forall>k'\<in>set rest. m' k' = None"
    using Cons.prems(1,3) by (auto simp: m'_def)
  have ih: "load_bands Passband False (map (\<lambda>k. band_of name k (g k)) rest) m' =
     Inr (\<lambda>f. if f \<in> set rest then Some (map rounded (sort_annuli (g f))) else m' f)"
    using Cons.IH[OF _ _ m'none] Cons.prems(1,2) by simp
  have "(\<lambda>f. if f \<in> set rest then Some (map rounded (sort_annuli (g f))) else m' f)
      = (\<lambda>f. if f \<in> set (k # rest) then Some (map rounded (sort_annuli (g f))) else m f)"
    by (auto simp: m'_def fun_eq_iff)
  then show ?case using Cons.prems(2) lc ih by (simp add: name_band_of)
qed

lemma load_bands_best:
  assumes "distinct ks" "\<forall>k\<in>set ks. Passband (Some (name k)) = Inr k"
    and "\<forall>k\<in>set ks. m k = None"
  shows "load_bands Passband True (map (\<lambda>k. band_of name k (g k)) ks) m =
     Inr (\<lambda>f. if f \<in> set ks then Some [rounded (best_of (g f))] else m f)"
  using assms
proof (induction ks arbitrary: m)
  case Nil
  then show ?case by simp
next
  case (Cons k rest)
  define m' where "m' = m(k \<mapsto> [rounded (best_of (g k))])"
  have dd: "dd_append m k (rounded (best_of (g k))) = m'"
    using Cons.prems(3) by (simp add: dd_append_def m'_def)
  have m'none: "\<forall>k'\<in>set rest. m' k' = None"
    using Cons.prems(1,3) by (auto simp: m'_def)
  have ih: "load_bands Passband True (map (\<lambda>k. band_of name k (g k)) rest) m' =
     Inr (\<lambda>f. if f \<in> set rest then Some [rounded (best_of (g f))] else m' f)"
    using Cons.IH[OF _ _ m'none] Cons.prems(1,2) by simp
  have "(\<lambda>f. if f \<in> set rest then Some [rounded (best_of (g f))] else m' f)
      = (\<lambda>f. if f \<in> set (k # rest) then Some [rounded (best_of (g f))] else m f)"
    by (auto simp: m'_def fun_eq_iff)
  then show ?case using Cons.prems(2) dd ih by (simp add: name_band_of candidate_of_band_of)
qed

text \<open>What xml_dump does on a dictionary whose lists are not empty.\<close>

lemma xml_dump_ok:
  fixes annuli :: "('f::linorder) annuli_dict"
  assumes "distinct (map fst annuli)" "list_all (\<lambda>item. snd item \<noteq> []) annuli"
  shows "xml_dump name p annuli fs =
     (fs(p \<mapsto> \<lparr>doc_dtd = CandidateAnnuli_XML_DTD,
               doc_root = Element ''annuli'' [] None
                 (map (\<lambda>k. band_of name k (the (map_of annuli k))) (sort (map fst annuli)))\<rparr>),
      map (\<lambda>item. (fst item, sort_annuli (snd item))) annuli,
      Inr ())"
proof -
  have ks: "distinct (sort (map fst annuli))" using assms(1) by simp
  have ne: "\<forall>k\<in>set (sort (map fst annuli)). \<exists>l. map_of annuli k = Some l \<and> l \<noteq> []"
  proof
    fix k assume "k \<in> set (sort (map fst annuli))"
    then obtain l where kl: "(k, l) \<in> set annuli" by auto
    then have "map_of annuli k = Some l" using assms(1) by simp
    moreover have "l \<noteq> []" using kl assms(2) by (auto simp: list_all_iff)
    ultimately show "\<exists>l. map_of annuli k = Some l \<and> l \<noteq> []" by blast
  qed
  have items: "map (\<lambda>item. (fst item, if fst item \<in> set (sort (map fst annuli))
          then sort_annuli (snd item) else snd item)) annuli
      = map (\<lambda>item. (fst item, sort_annuli (snd item))) annuli"
    by simp
  show ?thesis
    unfolding xml_dump_def dump_bands_ok[OF assms(1) ks ne] items
    by (simp add: validate_dtd_def valid_annuli_document)
qed

lemma dump_bands_Inr_nonempty:
  assumes "dump_bands name ks root_elt annuli = (a', Inr r)" "distinct ks"
  shows "\<forall>k\<in>set ks. \<exists>l. map_of annuli k = Some l \<and> l \<noteq> []"
  using assms
proof (induction ks arbitrary: root_elt annuli)
  case Nil
  then show ?case by simp
next
  case (Cons pf rest)
  from Cons.prems(1) obtain l where l: "map_of annuli pf = Some l"
    by (auto simp: dict_get_def split: option.splits)
  from Cons.prems(1) l have ne: "l \<noteq> []"
    by (cases l) (auto simp: dict_get_def)
  define annuli' where "annuli' = dict_replace annuli pf (sort_annuli l)"
  from Cons.prems(1) l ne obtain root' where
    rec: "dump_bands name rest root' annuli' = (a', Inr r)"
    by (auto simp: dict_get_def py_min_best_of Let_def annuli'_def)
  have pfr: "pf \<notin> set rest" "distinct rest" using Cons.prems(2) by auto
  have "\<forall>k\<in>set rest. \<exists>l. map_of annuli' k = Some l \<and> l \<noteq> []"
    by (rule Cons.IH[OF rec pfr(2)])
  moreover have "\<And>k. k \<in> set rest \<Longrightarrow> map_of annuli' k = map_of annuli k"
  proof -
    fix k assume "k \<in> set rest"
    with pfr have "k \<noteq> pf" by auto
    then show "map_of annuli' k = map_of annuli k"
      unfolding annuli'_def by (rule map_of_dict_replace_other)
  qed
  ultimately show ?case using l ne by simp
qed

lemma xml_dump_Inr_nonempty:
  fixes annuli :: "('f::linorder) annuli_dict"
  assumes "distinct (map fst annuli)" "xml_dump name p annuli fs = (fs', annuli', Inr u)"
  shows "list_all (\<lambda>item. snd item \<noteq> []) annuli"
proof -
  obtain a r where db: "dump_bands name (sort (map fst annuli)) (Element ''annuli'' [] None []) annuli = (a, r)"
    by (cases "dump_bands name (sort (map fst annuli)) (Element ''annuli'' [] None []) annuli")
  with assms(2) obtain root_elt where r: "r = Inr root_elt"
    by (cases r) (auto simp: xml_dump_def)
  have "\<forall>k\<in>set (sort (map fst annuli)). \<exists>l. map_of annuli k = Some l \<and> l \<noteq> []"
    by (rule dump_bands_Inr_nonempty[OF db[unfolded r]]) (use assms(1) in simp)
  then have "\<And>k l. (k, l) \<in> set annuli \<Longrightarrow> l \<noteq> []"
    using assms(1) by (metis map_of_eq_Some_iff option.inject set_sort set_map image_eqI fst_conv)
  then show ?thesis by (auto simp: list_all_iff)
qed

lemma sort_annuli_props:
  "mset (sort_annuli l) = mset l" "sorted (map (\<lambda>c. (annulus c, aperture c)) (sort_annuli l))"
  by (simp_all add: sort_annuli_def)

subsection \<open>CandidateAnnuli: loading what was dumped\<close>

lemma xml_load_after_dump:
  fixes annuli :: "('f::linorder) annuli_dict"
  assumes d: "distinct (map fst annuli)"
    and ne: "list_all (\<lambda>item. snd item \<noteq> []) annuli"
    and pb: "list_all (\<lambda>item. Passband (Some (name (fst item))) = Inr (fst item)) annuli"
    and fs': "fs' = fst (xml_dump name p annuli fs)"
  shows "xml_load Passband fs' p False =
           Inr (\<lambda>f. if f \<in> fst ` set annuli
                    then Some (map rounded (sort_annuli (the (map_of annuli f)))) else None)"
    and "xml_load Passband fs' p True =
           Inr (\<lambda>f. if f \<in> fst ` set annuli
                    then Some [rounded (best_of (the (map_of annuli f)))] else None)"
proof -
  define ks where "ks = sort (map fst annuli)"
  define g where "g = (\<lambda>k. the (map_of annuli k))"
  have doc: "fs' p = Some \<lparr>doc_dtd = CandidateAnnuli_XML_DTD,
               doc_root = Element ''annuli'' [] None (map (\<lambda>k. band_of name k (g k)) ks)\<rparr>"
    unfolding fs' xml_dump_ok[OF d ne] by (simp add: ks_def g_def)
  have dks: "distinct ks" using d by (simp add: ks_def)
  have sks: "set ks = fst ` set annuli" by (simp add: ks_def)
  have each: "Passband (Some (name k)) = Inr k \<and> g k \<noteq> []" if "k \<in> set ks" for k
  proof -
    from that sks obtain l where kl: "(k, l) \<in> set annuli" by auto
    then have "map_of annuli k = Some l" using d by simp
    then show ?thesis using kl ne pb by (auto simp: list_all_iff g_def)
  qed
  have full: "load_bands Passband False (map (\<lambda>k. band_of name k (g k)) ks) Map.empty =
     Inr (\<lambda>f. if f \<in> set ks then Some (map rounded (sort_annuli (g f))) else Map.empty f)"
    by (rule load_bands_full[OF dks]) (use each in auto)
  have best: "load_bands Passband True (map (\<lambda>k. band_of name k (g k)) ks) Map.empty =
     Inr (\<lambda>f. if f \<in> set ks then Some [rounded (best_of (g f))] else Map.empty f)"
    by (rule load_bands_best[OF dks]) (use each in auto)
  show "xml_load Passband fs' p False =
           Inr (\<lambda>f. if f \<in> fst ` set annuli
                    then Some (map rounded (sort_annuli (the (map_of annuli f)))) else None)"
    unfolding xml_load_def doc using full[unfolded g_def sks] by (simp add: g_def)
  show "xml_load Passband fs' p True =
           Inr (\<lambda>f. if f \<in> fst ` set annuli
                    then Some [rounded (best_of (the (map_of annuli f)))] else None)"
    unfolding xml_load_def doc using best[unfolded g_def sks] by (simp add: g_def)
qed

subsection \<open>CandidateAnnuli: the example, evaluated\<close>

lemma ex_format_5:
  "format_f 5 1 = ''1.00000''" "format_f 5 2 = ''2.00000''" "format_f 5 3 = ''3.00000''"
  "format_f 5 4 = ''4.00000''" "format_f 5 5 = ''5.00000''"
  "format_f 5 (1 / 64) = ''0.01562''" "format_f 5 (2 / 3) = ''0.66667''"
  by (simp_all add: format_eval)

lemma ex_format_8:
  "format_f 8 (1 / 100) = ''0.01000000''" "format_f 8 (1 / 3) = ''0.33333333''"
  "format_f 8 (1 / 2) = ''0.50000000''"
  by (simp_all add: format_eval)

lemma ex_round:
  "round_decimal 5 1 = 1" "round_decimal 5 2 = 2" "round_decimal 5 3 = 3"
  "round_decimal 5 4 = 4" "round_decimal 5 5 = 5"
  "round_decimal 5 (1 / 64) = 1562 / 100000" "round_decimal 5 (2 / 3) = 66667 / 100000"
  "round_decimal 8 (1 / 100) = 1 / 100" "round_decimal 8 (1 / 3) = 33333333 / 100000000"
  "round_decimal 8 (1 / 2) = 1 / 2"
  by (simp_all add: round_decimal_def round_half_even_def floor_rat_numeral_div Let_def)

lemma ex_ilog2:
  "ilog2 (781 / 50000) = - 7" "ilog2 (66667 / 100000) = - 1" "ilog2 (1 / 100) = - 7"
  "ilog2 (33333333 / 100000000) = - 2" "ilog2 (1 / 2) = - 1"
  "ilog2 1 = 0" "ilog2 2 = 1" "ilog2 3 = 1" "ilog2 4 = 2" "ilog2 5 = 2"
  by (simp_all add: ilog2_eval)

lemma ex_double:
  "nearest_double (781 / 50000) = 9004316950979475 / 576460752303423488"
  "nearest_double (66667 / 100000) = 6004829527158177 / 9007199254740992"
  "nearest_double (1 / 100) = 5764607523034235 / 576460752303423488"
  "nearest_double (33333333 / 100000000) = 3002399721556333 / 9007199254740992"
  "nearest_double (1 / 2) = 1 / 2"
  "nearest_double 1 = 1" "nearest_double 2 = 2" "nearest_double 3 = 3"
  "nearest_double 4 = 4" "nearest_double 5 = 5"
  by (simp_all add: double_eval ex_ilog2)

lemma ex_hyps:
  "distinct (map fst ex_annuli)"
  "list_all (\<lambda>(pfilter, cands). cands \<noteq> []) ex_annuli"
  "list_all (\<lambda>(pfilter, cands). ex_Passband (Some (ex_name pfilter)) = Inr pfilter) ex_annuli"
  by (simp_all add: ex_annuli_def ex_Passband_def ex_name_def)

lemma ex_dump:
  "xml_dump ex_name ''annuli.xml'' ex_annuli Map.empty = (ex_fs, ex_annuli_sorted, Inr ())"
proof -
  have ne: "list_all (\<lambda>item. snd item \<noteq> []) ex_annuli" by (simp add: ex_annuli_def)
  have k: "sort (map fst ex_annuli) = [2, 5]" by (simp add: ex_annuli_def)
  have b0: "band_of ex_name 2 (the (map_of ex_annuli 2)) = ex_band_I"
    by (simp add: ex_annuli_def ex_band_I_def ex_name_def band_of_def best_of_def sort_annuli_def
        candidate_kwargs_def cand_element_def ex_format_5 ex_format_8)
  have b1: "band_of ex_name 5 (the (map_of ex_annuli 5)) = ex_band_V"
    by (simp add: ex_annuli_def ex_band_V_def ex_name_def band_of_def best_of_def sort_annuli_def
        candidate_kwargs_def cand_element_def ex_format_5 ex_format_8)
  have s: "map (\<lambda>item. (fst item, sort_annuli (snd item))) ex_annuli = ex_annuli_sorted"
    by (simp add: ex_annuli_def ex_annuli_sorted_def sort_annuli_def)
  show ?thesis
    unfolding xml_dump_ok[OF ex_hyps(1) ne] k s by (simp add: b0 b1 ex_root_def ex_fs_def)
qed

lemma ex_load:
  "\<exists>full best.
       xml_load ex_Passband ex_fs ''annuli.xml'' False = Inr full
     \<and> xml_load ex_Passband ex_fs ''annuli.xml'' True = Inr best
     \<and> full 5 = Some [\<lparr>aperture = 6004829527158177 / 9007199254740992, annulus = 4, dannulus = 2,
                        stdev = 1 / 2\<rparr>,
                      \<lparr>aperture = 3, annulus = 5, dannulus = 2,
                        stdev = 3002399721556333 / 9007199254740992\<rparr>]
     \<and> full 2 = Some [\<lparr>aperture = 1, annulus = 1, dannulus = 9004316950979475 / 576460752303423488,
                        stdev = 5764607523034235 / 576460752303423488\<rparr>]
     \<and> best 5 = Some [\<lparr>aperture = 3, annulus = 5, dannulus = 2,
                        stdev = 3002399721556333 / 9007199254740992\<rparr>]
     \<and> best 2 = Some [\<lparr>aperture = 1, annulus = 1, dannulus = 9004316950979475 / 576460752303423488,
                        stdev = 5764607523034235 / 576460752303423488\<rparr>]"
proof -
  have ne: "list_all (\<lambda>item. snd item \<noteq> []) ex_annuli" by (simp add: ex_annuli_def)
  have pb: "list_all (\<lambda>item. ex_Passband (Some (ex_name (fst item))) = Inr (fst item)) ex_annuli"
    by (simp add: ex_annuli_def ex_Passband_def ex_name_def)
  have fs: "ex_fs = fst (xml_dump ex_name ''annuli.xml'' ex_annuli Map.empty)"
    by (simp add: ex_dump)
  note l = xml_load_after_dump[OF ex_hyps(1) ne pb fs]
  show ?thesis
    unfolding l
    by (intro exI conjI, rule refl, rule refl)
      (simp_all add: ex_annuli_def sort_annuli_def best_of_def rounded_def ex_round ex_double)
qed

subsection \<open>Calendar arithmetic\<close>

lemma month_of_yday_props:
  assumes "0 \<le> yd" "yd < 365"
    and "month_of_yday y [1, 2, 3, 4, 5, 6, 7, 8, 9, 10, 11, 12] yd = (m, d)"
  shows "1 \<le> m \<and> m \<le> 12 \<and> 1 \<le> d \<and> d \<le> days_in_month y m
       \<and> days_before_month y m + d = yd + 1"
proof -
  define L :: int where "L = (if isleap y then 1 else 0)"
  have L: "L = 0 \<or> L = 1" by (simp add: L_def)
  have dim: "days_in_month y 1 = 31" "days_in_month y 2 = 28 + L" "days_in_month y 3 = 31"
    "days_in_month y 4 = 30" "days_in_month y 5 = 31" "days_in_month y 6 = 30"
    "days_in_month y 7 = 31" "days_in_month y 8 = 31" "days_in_month y 9 = 30"
    "days_in_month y 10 = 31" "days_in_month y 11 = 30" "days_in_month y 12 = 31"
    by (simp_all add: days_in_month_def L_def)
  have dbm: "days_before_month y 1 = 0" "days_before_month y 2 = 31"
    "days_before_month y 3 = 59 + L" "days_before_month y 4 = 90 + L"
    "days_before_month y 5 = 120 + L" "days_before_month y 6 = 151 + L"
    "days_before_month y 7 = 181 + L" "days_before_month y 8 = 212 + L"
    "days_before_month y 9 = 243 + L" "days_before_month y 10 = 273 + L"
    "days_before_month y 11 = 304 + L" "days_before_month y 12 = 334 + L"
    by (simp_all add: days_before_month_def L_def)
  from assms(3) have
    "(m, d) \<in> {(1, yd + 1), (2, yd - 31 + 1), (3, yd - 59 - L + 1), (4, yd - 90 - L + 1),
       (5, yd - 120 - L + 1), (6, yd - 151 - L + 1), (7, yd - 181 - L + 1),
       (8, yd - 212 - L + 1), (9, yd - 243 - L + 1), (10, yd - 273 - L + 1),
       (11, yd - 304 - L + 1), (12, yd - 334 - L + 1)}
     \<and> d \<le> days_in_month y m \<and> 1 \<le> d"
    using assms(1,2) L
    by (auto simp: dim split: if_splits)
  then show ?thesis using dbm by auto
qed


lemma civil_of_days_props:
  assumes "civil_of_days days = (y, m, d)"
  shows "1 \<le> m \<and> m \<le> 12 \<and> 1 \<le> d \<and> d \<le> days_in_month y m
       \<and> days_before_year y + days_before_month y m + d = days + 719163
       \<and> (- 25567 \<le> days \<longrightarrow> 1900 \<le> y) \<and> (days \<le> 2932896 \<longrightarrow> y \<le> 9999)"
proof -
  define n where "n = days + 719162"
  define n400 where "n400 = n div 146097"
  define r400 where "r400 = n mod 146097"
  define n100 where "n100 = r400 div 36524"
  define r100 where "r100 = r400 mod 36524"
  define n4 where "n4 = r100 div 1461"
  define r4 where "r4 = r100 mod 1461"
  define n1 where "n1 = r4 div 365"
  define yday where "yday = r4 mod 365"
  define year where "year = n400 * 400 + n100 * 100 + n4 * 4 + n1 + 1"
  have e1: "n = 146097 * n400 + r400" "0 \<le> r400" "r400 < 146097"
    by (simp_all add: n400_def r400_def)
  have e2: "r400 = 36524 * n100 + r100" "0 \<le> r100" "r100 < 36524"
    by (simp_all add: n100_def r100_def)
  have e3: "r100 = 1461 * n4 + r4" "0 \<le> r4" "r4 < 1461"
    by (simp_all add: n4_def r4_def)
  have e4: "r4 = 365 * n1 + yday" "0 \<le> yday" "yday < 365"
    by (simp_all add: n1_def yday_def)
  have b100: "0 \<le> n100" "n100 \<le> 4"
  proof -
    show "0 \<le> n100" unfolding n100_def using e1(2) by (simp add: pos_imp_zdiv_nonneg_iff)
    show "n100 \<le> 4" using e1(3) e2(1,2) by linarith
  qed
  have b4: "0 \<le> n4" "n4 \<le> 24"
  proof -
    show "0 \<le> n4" unfolding n4_def using e2(2) by (simp add: pos_imp_zdiv_nonneg_iff)
    show "n4 \<le> 24" using e2(3) e3(1,2) by linarith
  qed
  have b1: "0 \<le> n1" "n1 \<le> 4"
  proof -
    show "0 \<le> n1" unfolding n1_def using e3(2) by (simp add: pos_imp_zdiv_nonneg_iff)
    show "n1 \<le> 4" using e3(3) e4(1,2) by linarith
  qed
  have c: "civil_of_days days =
      (if n1 = 4 \<or> n100 = 4 then (year - 1, 12, 31)
       else (case month_of_yday year [1, 2, 3, 4, 5, 6, 7, 8, 9, 10, 11, 12] yday of
               (month, day) \<Rightarrow> (year, month, day)))"
    unfolding civil_of_days_def Let_def n_def n400_def r400_def n100_def r100_def n4_def r4_def
      n1_def yday_def year_def ..
  show ?thesis
  proof (cases "n1 = 4 \<or> n100 = 4")
    case True
    with c assms have ymd: "y = year - 1" "m = 12" "d = 31" by simp_all
    define Y where "Y = year - 1"
    have dim: "days_in_month Y 12 = 31" by (simp add: days_in_month_def)
    have "isleap Y \<and> days_before_year Y + 366 = n + 1
        \<and> (693595 \<le> n \<longrightarrow> 1900 \<le> Y) \<and> (n \<le> 3652058 \<longrightarrow> Y \<le> 9999)"
    proof (cases "n100 = 4")
      case True
      have "r100 = 0" using True e1(3) e2(1,2) by linarith
      then have "n4 = 0" "r4 = 0" using e3 b4(1) by linarith+
      then have "n1 = 0" "yday = 0" using e4 b1(1) by linarith+
      have yr: "Y = 400 * n400 + 400"
        using True \<open>n4 = 0\<close> \<open>n1 = 0\<close> by (simp add: Y_def year_def)
      have nn: "n = 146097 * n400 + 146096"
        using e1(1) e2(1) True \<open>r100 = 0\<close> by linarith
      have d4: "(Y - 1) div 4 = 100 * n400 + 99"
        by (rule int_div_pos_eq[where r = 3]) (use yr in auto)
      have d100: "(Y - 1) div 100 = 4 * n400 + 3"
        by (rule int_div_pos_eq[where r = 99]) (use yr in auto)
      have d400: "(Y - 1) div 400 = n400"
        by (rule int_div_pos_eq[where r = 399]) (use yr in auto)
      have m4: "Y mod 4 = 0"
        by (rule int_mod_pos_eq[where q = "100 * n400 + 100"]) (use yr in auto)
      have m400: "Y mod 400 = 0"
        by (rule int_mod_pos_eq[where q = "n400 + 1"]) (use yr in auto)
      have "days_before_year Y = (Y - 1) * 365 + (100 * n400 + 99) - (4 * n400 + 3) + n400"
        unfolding days_before_year_def Let_def d4 d100 d400 ..
      then have "days_before_year Y + 366 = n + 1" unfolding yr nn by (simp add: algebra_simps)
      moreover have "693595 \<le> n \<longrightarrow> 1900 \<le> Y" using yr nn by linarith
      moreover have "n \<le> 3652058 \<longrightarrow> Y \<le> 9999" using yr nn by linarith
      ultimately show ?thesis using m4 m400 by (simp add: isleap_def)
    next
      case False
      with True have n1: "n1 = 4" by simp
      have n100: "n100 \<le> 3" using False b100 by linarith
      have "yday = 0" "r4 = 1460" using n1 e3(3) e4 by linarith+
      have n4: "n4 \<le> 23" using \<open>r4 = 1460\<close> e2(3) e3(1) by linarith
      have yr: "Y = 400 * n400 + 100 * n100 + 4 * n4 + 4"
        using n1 by (simp add: Y_def year_def)
      have nn: "n = 146097 * n400 + 36524 * n100 + 1461 * n4 + 1460"
        using e1(1) e2(1) e3(1) \<open>r4 = 1460\<close> by linarith
      have d4: "(Y - 1) div 4 = 100 * n400 + 25 * n100 + n4"
        by (rule int_div_pos_eq[where r = 3]) (use yr in auto)
      have d100: "(Y - 1) div 100 = 4 * n400 + n100"
        by (rule int_div_pos_eq[where r = "4 * n4 + 3"]) (use yr n4 b4 in auto)
      have d400: "(Y - 1) div 400 = n400"
        by (rule int_div_pos_eq[where r = "100 * n100 + 4 * n4 + 3"])
          (use yr n4 b4 n100 b100 in auto)
      have m4: "Y mod 4 = 0"
        by (rule int_mod_pos_eq[where q = "100 * n400 + 25 * n100 + n4 + 1"])
          (use yr in auto)
      have m100: "Y mod 100 = 4 * n4 + 4"
        by (rule int_mod_pos_eq[where q = "4 * n400 + n100"]) (use yr n4 b4 in auto)
      have "days_before_year Y = (Y - 1) * 365 + (100 * n400 + 25 * n100 + n4)
          - (4 * n400 + n100) + n400"
        unfolding days_before_year_def Let_def d4 d100 d400 ..
      then have "days_before_year Y + 366 = n + 1" unfolding yr nn by (simp add: algebra_simps)
      moreover have "Y mod 100 \<noteq> 0" using m100 b4 by linarith
      moreover
      define q where "q = 100 * n400 + 25 * n100 + n4 + 1"
      have Yq: "Y = 4 * q" by (simp add: yr q_def)
      have E: "584388 * q = 400 * n + 100 * n100 - 12 * n4 + 388"
        unfolding q_def nn by (simp add: algebra_simps)
      have "693595 \<le> n \<longrightarrow> 475 \<le> q" using E n4 b4 b100 n100 by linarith
      then have "693595 \<le> n \<longrightarrow> 1900 \<le> Y" using Yq by linarith
      moreover have "n \<le> 3652058 \<longrightarrow> q \<le> 2499" using E n4 b4 b100 n100 by linarith
      then have "n \<le> 3652058 \<longrightarrow> Y \<le> 9999" using Yq by linarith
      ultimately show ?thesis using m4 by (simp add: isleap_def)
    qed
    then have leap: "isleap Y" and tot: "days_before_year Y + 366 = n + 1"
      and rng: "693595 \<le> n \<longrightarrow> 1900 \<le> Y" "n \<le> 3652058 \<longrightarrow> Y \<le> 9999" by simp_all
    have dbm: "days_before_month Y 12 = 335"
      using leap by (simp add: days_before_month_def)
    show ?thesis unfolding ymd Y_def[symmetric] using dbm dim tot rng by (simp add: n_def)
  next
    case False
    then have f: "n1 \<le> 3" "n100 \<le> 3" using b1 b100 by auto
    obtain mo dy where md: "month_of_yday year [1, 2, 3, 4, 5, 6, 7, 8, 9, 10, 11, 12] yday = (mo, dy)"
      by (cases "month_of_yday year [1, 2, 3, 4, 5, 6, 7, 8, 9, 10, 11, 12] yday")
    with c assms False have ymd: "y = year" "m = mo" "d = dy" by simp_all
    note mp = month_of_yday_props[OF e4(2,3) md]
    have yr: "year - 1 = 400 * n400 + 100 * n100 + 4 * n4 + n1"
      by (simp add: year_def)
    have nn: "n = 146097 * n400 + 36524 * n100 + 1461 * n4 + 365 * n1 + yday"
      using e1(1) e2(1) e3(1) e4(1) by linarith
    have d4: "(year - 1) div 4 = 100 * n400 + 25 * n100 + n4"
      by (rule int_div_pos_eq[where r = n1]) (use yr f b1 in auto)
    have d100: "(year - 1) div 100 = 4 * n400 + n100"
      by (rule int_div_pos_eq[where r = "4 * n4 + n1"]) (use yr f b1 b4 in auto)
    have d400: "(year - 1) div 400 = n400"
      by (rule int_div_pos_eq[where r = "100 * n100 + 4 * n4 + n1"])
        (use yr f b1 b4 b100 in auto)
    have "days_before_year year = (year - 1) * 365 + (100 * n400 + 25 * n100 + n4)
        - (4 * n400 + n100) + n400"
      unfolding days_before_year_def Let_def d4 d100 d400 ..
    then have dby: "days_before_year year = n - yday" unfolding yr nn by (simp add: algebra_simps)
    define Yn where "Yn = year - 1"
    have E: "146097 * Yn = 400 * n + 100 * n100 - 12 * n4 + 97 * n1 - 400 * yday"
      unfolding Yn_def yr nn by (simp add: algebra_simps)
    have lo: "693595 \<le> n \<longrightarrow> 1899 \<le> Yn" using E f b1 b4 b100 e4(2,3) by linarith
    have hi: "n \<le> 3652058 \<longrightarrow> Yn \<le> 9998" using E f b1 b4 b100 e4(2,3) by linarith
    have lo': "- 25567 \<le> days \<longrightarrow> 1900 \<le> year" using lo unfolding n_def Yn_def by linarith
    have hi': "days \<le> 2932896 \<longrightarrow> year \<le> 9999" using hi unfolding n_def Yn_def by linarith
    have tot: "days_before_year year + days_before_month year mo + dy = days + 719163"
      using mp dby by (simp add: n_def)
    show ?thesis unfolding ymd using mp tot lo' hi' by blast
  qed
qed

lemma gmtime_fields:
  assumes "gmtime secs = Inr t"
  shows "1 \<le> tm_mon t \<and> tm_mon t \<le> 12 \<and> 1 \<le> tm_mday t
       \<and> tm_mday t \<le> days_in_month (tm_year t) (tm_mon t)
       \<and> 0 \<le> tm_hour t \<and> tm_hour t \<le> 23 \<and> 0 \<le> tm_min t \<and> tm_min t \<le> 59
       \<and> 0 \<le> tm_sec t \<and> tm_sec t \<le> 59 \<and> 0 \<le> tm_wday t \<and> tm_wday t \<le> 6"
    and "- 2208988800 \<le> secs \<Longrightarrow> 1900 \<le> tm_year t"
    and "secs \<le> 253402300799 \<Longrightarrow> tm_year t \<le> 9999"
proof -
  define days where "days = secs div 86400"
  define rem where "rem = secs mod 86400"
  obtain y m d where c: "civil_of_days days = (y, m, d)" by (cases "civil_of_days days") auto
  from civil_of_days_props[OF c]
  have p1: "1 \<le> m" and p2: "m \<le> 12" and p3: "1 \<le> d" and p4: "d \<le> days_in_month y m"
    and p5: "days_before_year y + days_before_month y m + d = days + 719163"
    and p6: "- 25567 \<le> days \<longrightarrow> 1900 \<le> y" and p7: "days \<le> 2932896 \<longrightarrow> y \<le> 9999"
    by blast+
  have t: "t = \<lparr>tm_year = y, tm_mon = m, tm_mday = d,
                    tm_hour = rem div 3600, tm_min = rem mod 3600 div 60, tm_sec = rem mod 60,
                    tm_wday = (days + 3) mod 7\<rparr>"
    using assms c unfolding gmtime_def Let_def days_def[symmetric] rem_def[symmetric]
    by (simp split: if_splits)
  have r: "0 \<le> rem" "rem < 86400" by (simp_all add: rem_def)
  have h: "0 \<le> rem div 3600" "rem div 3600 \<le> 23"
  proof -
    define hh where "hh = rem div 3600"
    have a: "rem = 3600 * hh + rem mod 3600" "0 \<le> rem mod 3600" by (simp_all add: hh_def)
    show "0 \<le> rem div 3600" using r(1) by (simp add: pos_imp_zdiv_nonneg_iff)
    have "hh \<le> 23" using a r(2) by linarith
    then show "rem div 3600 \<le> 23" by (simp add: hh_def)
  qed
  have mi: "0 \<le> rem mod 3600 div 60" "rem mod 3600 div 60 \<le> 59"
  proof -
    define r' where "r' = rem mod 3600"
    define mm where "mm = r' div 60"
    have a: "0 \<le> r'" "r' < 3600" by (simp_all add: r'_def)
    have b: "r' = 60 * mm + r' mod 60" "0 \<le> r' mod 60" by (simp_all add: mm_def)
    have "0 \<le> mm" unfolding mm_def using a(1) by (simp add: pos_imp_zdiv_nonneg_iff)
    moreover have "mm \<le> 59" using a(2) b by linarith
    ultimately show "0 \<le> rem mod 3600 div 60" "rem mod 3600 div 60 \<le> 59"
      by (simp_all add: mm_def r'_def)
  qed
  have s: "0 \<le> rem mod 60" "rem mod 60 \<le> 59"
  proof -
    show "0 \<le> rem mod 60" by simp
    have "rem mod 60 < 60" by simp
    then show "rem mod 60 \<le> 59" by simp
  qed
  have w: "0 \<le> (days + 3) mod 7" "(days + 3) mod 7 \<le> 6"
  proof -
    show "0 \<le> (days + 3) mod 7" by simp
    have "(days + 3) mod 7 < 7" by simp
    then show "(days + 3) mod 7 \<le> 6" by simp
  qed
  show "1 \<le> tm_mon t \<and> tm_mon t \<le> 12 \<and> 1 \<le> tm_mday t
       \<and> tm_mday t \<le> days_in_month (tm_year t) (tm_mon t)
       \<and> 0 \<le> tm_hour t \<and> tm_hour t \<le> 23 \<and> 0 \<le> tm_min t \<and> tm_min t \<le> 59
       \<and> 0 \<le> tm_sec t \<and> tm_sec t \<le> 59 \<and> 0 \<le> tm_wday t \<and> tm_wday t \<le> 6"
    unfolding t by (simp add: p1 p2 p3 p4 h mi s w)
  have dlo: "- 25567 \<le> days" if "- 2208988800 \<le> secs"
  proof -
    have "- 2208988800 div 86400 \<le> secs div 86400" using that by (rule zdiv_mono1) simp
    then show ?thesis by (simp add: days_def)
  qed
  have dhi: "days \<le> 2932896" if "secs \<le> 253402300799"
  proof -
    have "secs div 86400 \<le> 253402300799 div 86400" using that by (rule zdiv_mono1) simp
    then show ?thesis by (simp add: days_def)
  qed
  show "1900 \<le> tm_year t" if "- 2208988800 \<le> secs" unfolding t using p6 dlo[OF that] by simp
  show "tm_year t \<le> 9999" if "secs \<le> 253402300799" unfolding t using p7 dhi[OF that] by simp
qed

lemma timegm_gmtime:
  assumes "gmtime secs = Inr t" "1 \<le> tm_year t" "tm_year t \<le> 9999"
  shows "timegm t = Inr secs"
proof -
  define days where "days = secs div 86400"
  define rem where "rem = secs mod 86400"
  obtain y m d where c: "civil_of_days days = (y, m, d)" by (cases "civil_of_days days") auto
  from civil_of_days_props[OF c]
  have p1: "1 \<le> m" and p2: "m \<le> 12" and p3: "1 \<le> d" and p4: "d \<le> days_in_month y m"
    and p5: "days_before_year y + days_before_month y m + d = days + 719163"
    and p6: "- 25567 \<le> days \<longrightarrow> 1900 \<le> y" and p7: "days \<le> 2932896 \<longrightarrow> y \<le> 9999"
    by blast+
  have t: "t = \<lparr>tm_year = y, tm_mon = m, tm_mday = d,
                    tm_hour = rem div 3600, tm_min = rem mod 3600 div 60, tm_sec = rem mod 60,
                    tm_wday = (days + 3) mod 7\<rparr>"
    using assms(1) c unfolding gmtime_def Let_def days_def[symmetric] rem_def[symmetric]
    by (simp split: if_splits)
  have y: "1 \<le> y" "y \<le> 9999" using assms(2,3) by (simp_all add: t)
  have dd: "days_before_year y + days_before_month y m + 1 - 719163 + d - 1 = days"
    using p5 by linarith
  define hh where "hh = rem div 3600"
  define r' where "r' = rem mod 3600"
  define mm where "mm = r' div 60"
  define ss where "ss = rem mod 60"
  have r1: "rem = 3600 * hh + r'" by (simp add: hh_def r'_def)
  have r2: "r' = 60 * mm + r' mod 60" by (simp add: mm_def)
  have r3: "r' mod 60 = ss" by (simp add: r'_def ss_def mod_mod_cancel)
  have sec: "secs = 86400 * days + rem" by (simp add: days_def rem_def)
  have "secs = 86400 * days + 3600 * hh + 60 * mm + ss"
    using r1 r2 r3 sec by linarith
  then have "((days * 24 + hh) * 60 + mm) * 60 + ss = secs"
    by (simp add: algebra_simps)
  then have "((days * 24 + rem div 3600) * 60 + rem mod 3600 div 60) * 60 + rem mod 60 = secs"
    by (simp add: hh_def mm_def ss_def r'_def)
  then have v: "((days * 24 + tm_hour t) * 60 + tm_min t) * 60 + tm_sec t = secs"
    by (simp add: t)
  have cond: "\<not> (tm_year t < 1 \<or> 9999 < tm_year t \<or> tm_mon t < 1 \<or> 12 < tm_mon t)"
    using y p1 p2 by (simp add: t)
  have dd': "days_before_year (tm_year t) + days_before_month (tm_year t) (tm_mon t) + 1
      - 719163 + tm_mday t - 1 = days"
    using dd by (simp add: t)
  show ?thesis
    unfolding timegm_def Let_def dd' v using cond by (simp only: if_False)
qed

subsection \<open>CandidateAnnuli: the claims\<close>

text \<open>
  In the theorems below the numbers of a candidate are the exact values of its floats,
  the strings in the document are those that \<open>'%.5f'\<close> and \<open>'%.8f'\<close> write for
  them, and \<open>float\<close> returns the number that such a string denotes.
\<close>

text \<open>
  Claim C4. Whenever \<open>xml_dump\<close> returns, the file at \<open>xml_path\<close> holds the root
  \<open>annuli\<close> with one \<open>band\<close> per filter, in the sorted order of the filters. The
  attributes of each band are the name of its filter and the four values, written with
  5, 5, 5 and 8 decimals, of a candidate \<open>best\<close> of that filter whose \<open>stdev\<close> is least
  among the filter's candidates; its children are \<open>candidate\<close> elements with the same
  four attributes, one per candidate of the filter (\<open>evaluated\<close> is a permutation of the
  filter's list), in ascending order of the pair (annulus, aperture).
\<close>

theorem xml_dump_band_contents:
  fixes annuli :: "('f::linorder) annuli_dict"
  assumes "distinct (map fst annuli)"
    and "xml_dump name p annuli fs = (fs', annuli', Inr ())"
  shows "\<exists>bands. map_option doc_root (fs' p) = Some (Element ''annuli'' [] None bands)
     \<and> length bands = length annuli
     \<and> (\<forall>i<length annuli. \<exists>pfilter cands best evaluated.
          pfilter = sort (map fst annuli) ! i \<and> map_of annuli pfilter = Some cands
        \<and> best \<in> set cands \<and> (\<forall>c\<in>set cands. stdev best \<le> stdev c)
        \<and> mset evaluated = mset cands
        \<and> sorted (map (\<lambda>c. (annulus c, aperture c)) evaluated)
        \<and> bands ! i =
            Element ''band''
              [(''name'', name pfilter),
               (''aperture'', format_f 5 (aperture best)),
               (''annulus'', format_f 5 (annulus best)),
               (''dannulus'', format_f 5 (dannulus best)),
               (''stdev'', format_f 8 (stdev best))]
              None
              (map (\<lambda>c. Element ''candidate''
                     [(''aperture'', format_f 5 (aperture c)),
                      (''annulus'', format_f 5 (annulus c)),
                      (''dannulus'', format_f 5 (dannulus c)),
                      (''stdev'', format_f 8 (stdev c))]
                     None [])
                 evaluated))"
proof -
  have ne: "list_all (\<lambda>item. snd item \<noteq> []) annuli"
    by (rule xml_dump_Inr_nonempty[OF assms])
  define ks where "ks = sort (map fst annuli)"
  define bands where "bands = map (\<lambda>k. band_of name k (the (map_of annuli k))) ks"
  have fs': "fs' = fs(p \<mapsto> \<lparr>doc_dtd = CandidateAnnuli_XML_DTD,
               doc_root = Element ''annuli'' [] None bands\<rparr>)"
    using assms(2) unfolding xml_dump_ok[OF assms(1) ne] bands_def ks_def by simp
  have len: "length bands = length annuli" by (simp add: bands_def ks_def)
  have each: "\<exists>pfilter cands best evaluated.
          pfilter = ks ! i \<and> map_of annuli pfilter = Some cands
        \<and> best \<in> set cands \<and> (\<forall>c\<in>set cands. stdev best \<le> stdev c)
        \<and> mset evaluated = mset cands
        \<and> sorted (map (\<lambda>c. (annulus c, aperture c)) evaluated)
        \<and> bands ! i =
            Element ''band''
              [(''name'', name pfilter),
               (''aperture'', format_f 5 (aperture best)),
               (''annulus'', format_f 5 (annulus best)),
               (''dannulus'', format_f 5 (dannulus best)),
               (''stdev'', format_f 8 (stdev best))]
              None
              (map (\<lambda>c. Element ''candidate''
                     [(''aperture'', format_f 5 (aperture c)),
                      (''annulus'', format_f 5 (annulus c)),
                      (''dannulus'', format_f 5 (dannulus c)),
                      (''stdev'', format_f 8 (stdev c))]
                     None [])
                 evaluated)" if i: "i < length annuli" for i
  proof -
    have iks: "i < length ks" using i by (simp add: ks_def)
    then have "ks ! i \<in> set ks" by simp
    then have "ks ! i \<in> fst ` set annuli" by (simp add: ks_def)
    then obtain cands where kc: "(ks ! i, cands) \<in> set annuli" by auto
    then have m: "map_of annuli (ks ! i) = Some cands" using assms(1) by simp
    have cne: "cands \<noteq> []" using kc ne by (auto simp: list_all_iff)
    have b: "bands ! i = band_of name (ks ! i) cands"
      using iks m by (simp add: bands_def)
    show ?thesis
      apply (rule exI[of _ "ks ! i"], rule exI[of _ cands], rule exI[of _ "best_of cands"],
          rule exI[of _ "sort_annuli cands"])
      using m cne b
      by (simp add: best_of_in best_of_least sort_annuli_props band_of_def candidate_kwargs_def
          cand_element_def)
  qed
  show ?thesis
    apply (rule exI[of _ bands])
    using fs' len each unfolding ks_def by simp
qed

text \<open>The theorem at the example: its document has the bands \<open>ex_band_I\<close>, \<open>ex_band_V\<close>.\<close>

theorem xml_dump_band_contents_witness:
  "distinct (map fst ex_annuli)
   \<and> xml_dump ex_name ''annuli.xml'' ex_annuli Map.empty = (ex_fs, ex_annuli_sorted, Inr ())
   \<and> (\<exists>bands. map_option doc_root (ex_fs ''annuli.xml'') = Some (Element ''annuli'' [] None bands)
         \<and> length bands = length ex_annuli
         \<and> bands = [ex_band_I, ex_band_V])"
proof -
  from xml_dump_band_contents[OF ex_hyps(1) ex_dump]
  obtain bands where b: "map_option doc_root (ex_fs ''annuli.xml'') = Some (Element ''annuli'' [] None bands)"
    "length bands = length ex_annuli" by blast
  from b(1) have c: "bands = [ex_band_I, ex_band_V]" by (simp add: ex_fs_def ex_root_def)
  have e: "\<exists>bands. map_option doc_root (ex_fs ''annuli.xml'') = Some (Element ''annuli'' [] None bands)
         \<and> length bands = length ex_annuli
         \<and> bands = [ex_band_I, ex_band_V]"
    by (rule exI[of _ bands]) (intro conjI b c)
  show ?thesis
    by (intro conjI) (rule ex_hyps ex_dump e)+
qed

text \<open>
  Claim C9 does not hold as stated: \<open>xml_dump\<close> sorts each list of the dictionary in
  place. Here the filter 1 has two candidates, given with the sky annuli 5 and 4, and
  after the call its list holds them in the other order.
\<close>

theorem xml_dump_reorders_input:
  "snd (xml_dump (\<lambda>f::nat. ''V'') ''annuli.xml''
          [(1, [\<lparr>aperture = 3, annulus = 5, dannulus = 2, stdev = 1 / 100\<rparr>,
                \<lparr>aperture = 2, annulus = 4, dannulus = 2, stdev = 1 / 50\<rparr>])]
          Map.empty)
   = ([(1, [\<lparr>aperture = 2, annulus = 4, dannulus = 2, stdev = 1 / 50\<rparr>,
            \<lparr>aperture = 3, annulus = 5, dannulus = 2, stdev = 1 / 100\<rparr>])],
      Inr ())"
  by (subst xml_dump_ok) (simp_all add: sort_annuli_def)

text \<open>
  Claim C9, amended. When \<open>xml_dump\<close> returns, the dictionary has the same keys, and
  the list of each key holds the same candidates sorted (stably, ascending) by the pair
  (annulus, aperture); the dictionary is as before exactly when every list was already
  in that order. No file other than the one at \<open>xml_path\<close> changes.
\<close>

theorem xml_dump_sorts_lists:
  fixes annuli :: "('f::linorder) annuli_dict"
  assumes "distinct (map fst annuli)"
    and "xml_dump name p annuli fs = (fs', annuli', Inr ())"
  shows "annuli' = map (\<lambda>(pfilter, cands). (pfilter, sort_key (\<lambda>c. (annulus c, aperture c)) cands)) annuli
     \<and> (\<forall>q. q \<noteq> p \<longrightarrow> fs' q = fs q)
     \<and> (annuli' = annuli \<longleftrightarrow> list_all (\<lambda>(pfilter, cands). sorted (map (\<lambda>c. (annulus c, aperture c)) cands)) annuli)"
proof -
  have ne: "list_all (\<lambda>item. snd item \<noteq> []) annuli"
    by (rule xml_dump_Inr_nonempty[OF assms])
  have a: "annuli' = map (\<lambda>(pfilter, cands). (pfilter, sort_key (\<lambda>c. (annulus c, aperture c)) cands)) annuli"
    using assms(2) unfolding xml_dump_ok[OF assms(1) ne]
    by (auto simp: sort_annuli_def case_prod_beta)
  have b: "\<forall>q. q \<noteq> p \<longrightarrow> fs' q = fs q"
    using assms(2) unfolding xml_dump_ok[OF assms(1) ne] by auto
  have s: "sort_key f xs = xs \<longleftrightarrow> sorted (map f xs)" for f :: "CandidateAnnuli \<Rightarrow> rat \<times> rat" and xs
    by (metis sorted_sort_key sort_key_id_if_sorted)
  have c: "annuli' = annuli \<longleftrightarrow> list_all (\<lambda>(pfilter, cands). sorted (map (\<lambda>c. (annulus c, aperture c)) cands)) annuli"
    unfolding a by (induction annuli) (auto simp: s)
  show ?thesis using a b c by blast
qed

text \<open>The theorem at the example, whose dictionary does change.\<close>

theorem xml_dump_sorts_lists_witness:
  "distinct (map fst ex_annuli)
   \<and> xml_dump ex_name ''annuli.xml'' ex_annuli Map.empty = (ex_fs, ex_annuli_sorted, Inr ())
   \<and> ex_annuli_sorted =
       map (\<lambda>(pfilter, cands). (pfilter, sort_key (\<lambda>c. (annulus c, aperture c)) cands)) ex_annuli
   \<and> ex_fs ''other.xml'' = None
   \<and> ex_annuli_sorted \<noteq> ex_annuli"
proof -
  from xml_dump_sorts_lists[OF ex_hyps(1) ex_dump]
  have a: "ex_annuli_sorted =
       map (\<lambda>(pfilter, cands). (pfilter, sort_key (\<lambda>c. (annulus c, aperture c)) cands)) ex_annuli"
    and b: "\<forall>q. q \<noteq> ''annuli.xml'' \<longrightarrow> ex_fs q = Map.empty q" by blast+
  from b have c: "ex_fs ''other.xml'' = None" by simp
  have d: "ex_annuli_sorted \<noteq> ex_annuli" by (simp add: ex_annuli_def ex_annuli_sorted_def)
  show ?thesis
    by (intro conjI) (rule ex_hyps ex_dump a c d)+
qed

text \<open>
  Claim C3. Let \<open>annuli\<close> be a dictionary (its keys distinct) whose lists are not
  empty, and let \<open>Passband\<close> turn the name of each of its filters back into the
  filter. Then \<open>xml_dump\<close> returns; the file it wrote follows its own DTD; and
  \<open>xml_load\<close> of that file with \<open>best_only\<close> false returns a dictionary with the same
  filters, the list of each filter holding, as a multiset, the candidates of the
  original list as they are read back (\<open>rounded\<close>): each value is the double nearest
  to the value rounded to its declared precision. Rounding to \<open>d\<close> decimals changes a
  value by at most half a unit of the last decimal, and taking the nearest double by
  at most the fraction \<open>1 / 2 ^ 53\<close> of the value (\<open>1 / 2 ^ 1075\<close> for the smallest ones).
\<close>

theorem xml_dump_load_roundtrip:
  fixes annuli :: "('f::linorder) annuli_dict"
  assumes "distinct (map fst annuli)"
    and "list_all (\<lambda>(pfilter, cands). cands \<noteq> []) annuli"
    and "list_all (\<lambda>(pfilter, cands). Passband (Some (name pfilter)) = Inr pfilter) annuli"
  shows "\<exists>fs' annuli' doc loaded.
       xml_dump name p annuli fs = (fs', annuli', Inr ())
     \<and> fs' p = Some doc \<and> valid_document doc
     \<and> xml_load Passband fs' p False = Inr loaded
     \<and> dom loaded = fst ` set annuli
     \<and> (\<forall>(pfilter, cands) \<in> set annuli.
          \<exists>cands'. loaded pfilter = Some cands'
            \<and> mset cands' = image_mset rounded (mset cands))
     \<and> (\<forall>c. aperture (rounded c) = nearest_double (round_decimal 5 (aperture c))
            \<and> annulus (rounded c) = nearest_double (round_decimal 5 (annulus c))
            \<and> dannulus (rounded c) = nearest_double (round_decimal 5 (dannulus c))
            \<and> stdev (rounded c) = nearest_double (round_decimal 8 (stdev c)))
     \<and> (\<forall>d x. \<bar>round_decimal d x - x\<bar> \<le> 1 / (2 * 10 ^ d))
     \<and> (\<forall>q. \<bar>nearest_double q - q\<bar> \<le> max (\<bar>q\<bar> / 2 ^ 53) (1 / 2 ^ 1075))"
proof -
  have ne: "list_all (\<lambda>item. snd item \<noteq> []) annuli"
    using assms(2) by (auto simp: list_all_iff)
  have pb: "list_all (\<lambda>item. Passband (Some (name (fst item))) = Inr (fst item)) annuli"
    using assms(3) by (auto simp: list_all_iff)
  define doc where "doc = \<lparr>doc_dtd = CandidateAnnuli_XML_DTD,
               doc_root = Element ''annuli'' [] None
                 (map (\<lambda>k. band_of name k (the (map_of annuli k))) (sort (map fst annuli)))\<rparr>"
  define fs' where "fs' = fs(p \<mapsto> doc)"
  define annuli' where "annuli' = map (\<lambda>item. (fst item, sort_annuli (snd item))) annuli"
  define loaded where "loaded = (\<lambda>f. if f \<in> fst ` set annuli
                    then Some (map rounded (sort_annuli (the (map_of annuli f)))) else None)"
  have dump: "xml_dump name p annuli fs = (fs', annuli', Inr ())"
    unfolding xml_dump_ok[OF assms(1) ne] by (simp add: fs'_def annuli'_def doc_def)
  have v: "fs' p = Some doc" "valid_document doc"
    by (simp_all add: fs'_def doc_def valid_annuli_document)
  have load: "xml_load Passband fs' p False = Inr loaded"
  proof -
    have "fs' = fst (xml_dump name p annuli fs)" by (simp add: dump)
    then show ?thesis
      unfolding loaded_def by (rule xml_load_after_dump(1)[OF assms(1) ne pb])
  qed
  have dm: "dom loaded = fst ` set annuli"
    by (auto simp: loaded_def dom_def)
  have each: "\<forall>(pfilter, cands) \<in> set annuli.
          \<exists>cands'. loaded pfilter = Some cands'
            \<and> mset cands' = image_mset rounded (mset cands)"
  proof (clarify)
    fix pfilter cands assume m: "(pfilter, cands) \<in> set annuli"
    then have "map_of annuli pfilter = Some cands" using assms(1) by simp
    moreover have "pfilter \<in> fst ` set annuli" using m by force
    ultimately have "loaded pfilter = Some (map rounded (sort_annuli cands))"
      by (simp add: loaded_def)
    then show "\<exists>cands'. loaded pfilter = Some cands'
            \<and> mset cands' = image_mset rounded (mset cands)"
      by (simp add: sort_annuli_props)
  qed
  have val: "\<forall>c. aperture (rounded c) = nearest_double (round_decimal 5 (aperture c))
            \<and> annulus (rounded c) = nearest_double (round_decimal 5 (annulus c))
            \<and> dannulus (rounded c) = nearest_double (round_decimal 5 (dannulus c))
            \<and> stdev (rounded c) = nearest_double (round_decimal 8 (stdev c))"
    by (simp add: rounded_def)
  have err: "\<forall>d x. \<bar>round_decimal d x - x\<bar> \<le> 1 / (2 * 10 ^ d)"
    by (simp add: round_decimal_error)
  have errd: "\<forall>q. \<bar>nearest_double q - q\<bar> \<le> max (\<bar>q\<bar> / 2 ^ 53) (1 / 2 ^ 1075)"
    using nearest_double_error by blast
  show ?thesis
    by (intro exI[of _ fs'] exI[of _ annuli'] exI[of _ doc] exI[of _ loaded] conjI)
      (rule dump v load dm each val err errd)+
qed

text \<open>The theorem at the example, with the dictionary that is loaded.\<close>

theorem xml_dump_load_roundtrip_witness:
  "distinct (map fst ex_annuli)
   \<and> list_all (\<lambda>(pfilter, cands). cands \<noteq> []) ex_annuli
   \<and> list_all (\<lambda>(pfilter, cands). ex_Passband (Some (ex_name pfilter)) = Inr pfilter) ex_annuli
   \<and> (\<exists>doc loaded.
          xml_dump ex_name ''annuli.xml'' ex_annuli Map.empty = (ex_fs, ex_annuli_sorted, Inr ())
        \<and> ex_fs ''annuli.xml'' = Some doc \<and> valid_document doc
        \<and> xml_load ex_Passband ex_fs ''annuli.xml'' False = Inr loaded
        \<and> dom loaded = {2, 5}
        \<and> loaded 5 =
            Some [\<lparr>aperture = 6004829527158177 / 9007199254740992, annulus = 4, dannulus = 2,
                        stdev = 1 / 2\<rparr>,
                  \<lparr>aperture = 3, annulus = 5, dannulus = 2,
                        stdev = 3002399721556333 / 9007199254740992\<rparr>]
        \<and> loaded 2 =
            Some [\<lparr>aperture = 1, annulus = 1, dannulus = 9004316950979475 / 576460752303423488,
                        stdev = 5764607523034235 / 576460752303423488\<rparr>])"
proof -
  have "\<exists>fs' annuli' doc loaded.
      xml_dump ex_name ''annuli.xml'' ex_annuli Map.empty = (fs', annuli', Inr ())
    \<and> fs' ''annuli.xml'' = Some doc \<and> valid_document doc
    \<and> xml_load ex_Passband fs' ''annuli.xml'' False = Inr loaded
    \<and> dom loaded = fst ` set ex_annuli"
    using xml_dump_load_roundtrip[OF ex_hyps, of "''annuli.xml''" Map.empty]
    by (elim exE conjE) (intro exI conjI; assumption)
  then obtain fs' annuli' doc loaded where r:
    "xml_dump ex_name ''annuli.xml'' ex_annuli Map.empty = (fs', annuli', Inr ())"
    "fs' ''annuli.xml'' = Some doc" "valid_document doc"
    "xml_load ex_Passband fs' ''annuli.xml'' False = Inr loaded"
    "dom loaded = fst ` set ex_annuli"
    by blast
  from r(1) have fs': "fs' = ex_fs" by (simp add: ex_dump)
  have d: "dom loaded = {2, 5}" unfolding r(5) by (simp add: ex_annuli_def insert_commute)
  have "\<exists>m. xml_load ex_Passband ex_fs ''annuli.xml'' False = Inr m
    \<and> m 5 = Some [\<lparr>aperture = 6004829527158177 / 9007199254740992, annulus = 4, dannulus = 2,
                        stdev = 1 / 2\<rparr>,
                 \<lparr>aperture = 3, annulus = 5, dannulus = 2,
                        stdev = 3002399721556333 / 9007199254740992\<rparr>]
    \<and> m 2 = Some [\<lparr>aperture = 1, annulus = 1, dannulus = 9004316950979475 / 576460752303423488,
                        stdev = 5764607523034235 / 576460752303423488\<rparr>]"
    using ex_load by (elim exE conjE) (intro exI conjI; assumption)
  then obtain m where m:
    "xml_load ex_Passband ex_fs ''annuli.xml'' False = Inr m"
    "m 5 = Some [\<lparr>aperture = 6004829527158177 / 9007199254740992, annulus = 4, dannulus = 2,
                        stdev = 1 / 2\<rparr>,
                 \<lparr>aperture = 3, annulus = 5, dannulus = 2,
                        stdev = 3002399721556333 / 9007199254740992\<rparr>]"
    "m 2 = Some [\<lparr>aperture = 1, annulus = 1, dannulus = 9004316950979475 / 576460752303423488,
                        stdev = 5764607523034235 / 576460752303423488\<rparr>]"
    by blast
  have lm: "loaded = m" using r(4) m(1) unfolding fs' by simp
  have e: "\<exists>doc loaded.
          xml_dump ex_name ''annuli.xml'' ex_annuli Map.empty = (ex_fs, ex_annuli_sorted, Inr ())
        \<and> ex_fs ''annuli.xml'' = Some doc \<and> valid_document doc
        \<and> xml_load ex_Passband ex_fs ''annuli.xml'' False = Inr loaded
        \<and> dom loaded = {2, 5}
        \<and> loaded 5 =
            Some [\<lparr>aperture = 6004829527158177 / 9007199254740992, annulus = 4, dannulus = 2,
                        stdev = 1 / 2\<rparr>,
                  \<lparr>aperture = 3, annulus = 5, dannulus = 2,
                        stdev = 3002399721556333 / 9007199254740992\<rparr>]
        \<and> loaded 2 =
            Some [\<lparr>aperture = 1, annulus = 1, dannulus = 9004316950979475 / 576460752303423488,
                        stdev = 5764607523034235 / 576460752303423488\<rparr>]"
    using r(2,3,4) d m(2,3) unfolding fs' lm
    by (intro exI[of _ doc] exI[of _ m] conjI ex_dump)
  show ?thesis
    by (intro conjI) (rule ex_hyps e)+
qed

text \<open>
  Claim C5. For a file that \<open>xml_dump\<close> wrote (with \<open>Passband\<close> as in C3), both ways
  of loading succeed and return dictionaries with the same filters; with \<open>best_only\<close>
  the list of a filter has a single candidate, which is an element of the full list of
  that filter and whose \<open>stdev\<close> is least in that list: the values compared are the
  doubles read back, and both writing a value with eight decimals and taking the
  nearest double keep the order of the values.
\<close>

theorem xml_load_best_only:
  fixes annuli :: "('f::linorder) annuli_dict"
  assumes "distinct (map fst annuli)"
    and "list_all (\<lambda>(pfilter, cands). Passband (Some (name pfilter)) = Inr pfilter) annuli"
    and "xml_dump name p annuli fs = (fs', annuli', Inr ())"
  shows "\<exists>full best.
       xml_load Passband fs' p False = Inr full
     \<and> xml_load Passband fs' p True = Inr best
     \<and> dom best = dom full
     \<and> dom full = fst ` set annuli
     \<and> (\<forall>pfilter \<in> dom full. \<exists>b cands.
            best pfilter = Some [b] \<and> full pfilter = Some cands
          \<and> b \<in> set cands \<and> (\<forall>c \<in> set cands. stdev b \<le> stdev c))"
proof -
  have ne: "list_all (\<lambda>item. snd item \<noteq> []) annuli"
    by (rule xml_dump_Inr_nonempty[OF assms(1,3)])
  have pb: "list_all (\<lambda>item. Passband (Some (name (fst item))) = Inr (fst item)) annuli"
    using assms(2) by (auto simp: list_all_iff)
  define full where "full = (\<lambda>f. if f \<in> fst ` set annuli
                    then Some (map rounded (sort_annuli (the (map_of annuli f)))) else None)"
  define best where "best = (\<lambda>f. if f \<in> fst ` set annuli
                    then Some [rounded (best_of (the (map_of annuli f)))] else None)"
  have fs': "fs' = fst (xml_dump name p annuli fs)" by (simp add: assms(3))
  have l1: "xml_load Passband fs' p False = Inr full"
    unfolding full_def by (rule xml_load_after_dump(1)[OF assms(1) ne pb fs'])
  have l2: "xml_load Passband fs' p True = Inr best"
    unfolding best_def by (rule xml_load_after_dump(2)[OF assms(1) ne pb fs'])
  have d1: "dom full = fst ` set annuli" by (auto simp: full_def dom_def)
  have d2: "dom best = dom full" by (auto simp: full_def best_def dom_def)
  have each: "\<forall>pfilter \<in> dom full. \<exists>b cands.
            best pfilter = Some [b] \<and> full pfilter = Some cands
          \<and> b \<in> set cands \<and> (\<forall>c \<in> set cands. stdev b \<le> stdev c)"
  proof
    fix pfilter assume "pfilter \<in> dom full"
    then have mem: "pfilter \<in> fst ` set annuli" using d1 by simp
    then obtain l where kl: "(pfilter, l) \<in> set annuli" by auto
    then have m: "map_of annuli pfilter = Some l" using assms(1) by simp
    have lne: "l \<noteq> []" using kl ne by (auto simp: list_all_iff)
    have b: "best pfilter = Some [rounded (best_of l)]" using mem m by (simp add: best_def)
    have f: "full pfilter = Some (map rounded (sort_annuli l))" using mem m by (simp add: full_def)
    have "set (sort_annuli l) = set l" by (simp add: sort_annuli_def)
    then have inl: "rounded (best_of l) \<in> set (map rounded (sort_annuli l))"
      using best_of_in[OF lne] by simp
    have least: "\<forall>c \<in> set (map rounded (sort_annuli l)). stdev (rounded (best_of l)) \<le> stdev c"
    proof
      fix c assume "c \<in> set (map rounded (sort_annuli l))"
      then obtain c0 where c0: "c0 \<in> set l" "c = rounded c0"
        by (auto simp: sort_annuli_def)
      have "stdev (best_of l) \<le> stdev c0" by (rule best_of_least[OF c0(1)])
      then show "stdev (rounded (best_of l)) \<le> stdev c"
        unfolding c0(2) by (simp add: rounded_def round_decimal_mono nearest_double_mono)
    qed
    show "\<exists>b cands. best pfilter = Some [b] \<and> full pfilter = Some cands
          \<and> b \<in> set cands \<and> (\<forall>c \<in> set cands. stdev b \<le> stdev c)"
      using b f inl least by blast
  qed
  show ?thesis using l1 l2 d1 d2 each by blast
qed

text \<open>The theorem at the example, with the best and all the candidates of filter 5.\<close>

theorem xml_load_best_only_witness:
  "distinct (map fst ex_annuli)
   \<and> list_all (\<lambda>(pfilter, cands). ex_Passband (Some (ex_name pfilter)) = Inr pfilter) ex_annuli
   \<and> xml_dump ex_name ''annuli.xml'' ex_annuli Map.empty = (ex_fs, ex_annuli_sorted, Inr ())
   \<and> (\<exists>full best.
          xml_load ex_Passband ex_fs ''annuli.xml'' False = Inr full
        \<and> xml_load ex_Passband ex_fs ''annuli.xml'' True = Inr best
        \<and> dom best = dom full
        \<and> best 5 =
            Some [\<lparr>aperture = 3, annulus = 5, dannulus = 2,
                        stdev = 3002399721556333 / 9007199254740992\<rparr>]
        \<and> full 5 =
            Some [\<lparr>aperture = 6004829527158177 / 9007199254740992, annulus = 4, dannulus = 2,
                        stdev = 1 / 2\<rparr>,
                  \<lparr>aperture = 3, annulus = 5, dannulus = 2,
                        stdev = 3002399721556333 / 9007199254740992\<rparr>])"
proof -
  have "\<exists>full best. xml_load ex_Passband ex_fs ''annuli.xml'' False = Inr full
      \<and> xml_load ex_Passband ex_fs ''annuli.xml'' True = Inr best \<and> dom best = dom full"
    using xml_load_best_only[OF ex_hyps(1,3) ex_dump]
    by (elim exE conjE) (intro exI conjI; assumption)
  then obtain full best where r:
    "xml_load ex_Passband ex_fs ''annuli.xml'' False = Inr full"
    "xml_load ex_Passband ex_fs ''annuli.xml'' True = Inr best"
    "dom best = dom full"
    by blast
  have "\<exists>m mb. xml_load ex_Passband ex_fs ''annuli.xml'' False = Inr m
    \<and> xml_load ex_Passband ex_fs ''annuli.xml'' True = Inr mb
    \<and> m 5 = Some [\<lparr>aperture = 6004829527158177 / 9007199254740992, annulus = 4, dannulus = 2,
                        stdev = 1 / 2\<rparr>,
                 \<lparr>aperture = 3, annulus = 5, dannulus = 2,
                        stdev = 3002399721556333 / 9007199254740992\<rparr>]
    \<and> mb 5 = Some [\<lparr>aperture = 3, annulus = 5, dannulus = 2,
                        stdev = 3002399721556333 / 9007199254740992\<rparr>]"
    using ex_load by (elim exE conjE) (intro exI conjI; assumption)
  then obtain m mb where m:
    "xml_load ex_Passband ex_fs ''annuli.xml'' False = Inr m"
    "m 5 = Some [\<lparr>aperture = 6004829527158177 / 9007199254740992, annulus = 4, dannulus = 2,
                        stdev = 1 / 2\<rparr>,
                 \<lparr>aperture = 3, annulus = 5, dannulus = 2,
                        stdev = 3002399721556333 / 9007199254740992\<rparr>]"
    and mb:
    "xml_load ex_Passband ex_fs ''annuli.xml'' True = Inr mb"
    "mb 5 = Some [\<lparr>aperture = 3, annulus = 5, dannulus = 2,
                        stdev = 3002399721556333 / 9007199254740992\<rparr>]"
    by blast
  have fm: "full = m" using r(1) m(1) by simp
  have bm: "best = mb" using r(2) mb(1) by simp
  have e: "\<exists>full best. xml_load ex_Passband ex_fs ''annuli.xml'' False = Inr full
        \<and> xml_load ex_Passband ex_fs ''annuli.xml'' True = Inr best
        \<and> dom best = dom full
        \<and> best 5 =
            Some [\<lparr>aperture = 3, annulus = 5, dannulus = 2,
                        stdev = 3002399721556333 / 9007199254740992\<rparr>]
        \<and> full 5 =
            Some [\<lparr>aperture = 6004829527158177 / 9007199254740992, annulus = 4, dannulus = 2,
                        stdev = 1 / 2\<rparr>,
                  \<lparr>aperture = 3, annulus = 5, dannulus = 2,
                        stdev = 3002399721556333 / 9007199254740992\<rparr>]"
    using r m(2) mb(2) unfolding fm bm
    by (intro exI[of _ m] exI[of _ mb] conjI)
  show ?thesis
    by (intro conjI) (rule ex_hyps ex_dump e)+
qed


end
